theory Spec2Isabelle
  imports Complex_Main
begin

section \<open>JavaScript Number values\<close>

text \<open>
  The calculator computes with JavaScript Numbers, that is IEEE 754 binary64 values.
  A Number is NaN, an infinity with its sign, or a finite value given by its sign
  (\<open>True\<close> is negative) and its magnitude, an exact rational; the two zeros are
  \<open>Finite False 0\<close> and \<open>Finite True 0\<close>.
\<close>

datatype number = NaN | Infinity bool | Finite bool rat

text \<open>What \<open>pop\<close> of an array of Numbers returns: \<open>undefined\<close> on the empty array.\<close>

datatype jsval = Undefined | Num number

fun ToNumber :: "jsval \<Rightarrow> number" where
  "ToNumber Undefined = NaN"
| "ToNumber (Num x) = x"

definition scale :: "nat \<Rightarrow> int \<Rightarrow> rat" where
  \<comment> \<open>\<open>b\<close> to the power \<open>z\<close>, for an exponent of either sign\<close>
  "scale b z = (if 0 \<le> z then of_nat b ^ nat z else 1 / of_nat b ^ nat (- z))"

function ndigits :: "int \<Rightarrow> int \<Rightarrow> int" where
  \<comment> \<open>the number of digits of \<open>n\<close> in base \<open>b\<close>; 0 for \<open>n \<le> 0\<close>\<close>
  "ndigits b n = (if 0 < n \<and> 1 < b then ndigits b (n div b) + 1 else 0)"
  by pat_completeness auto
termination
  by (relation "measure (\<lambda>(b, n). nat n)") (auto intro: int_div_less_self)

declare ndigits.simps [simp del]

definition ilog :: "nat \<Rightarrow> rat \<Rightarrow> int" where
  \<comment> \<open>the integer \<open>e\<close> with \<open>b ^ e \<le> a < b ^ (e + 1)\<close>, for \<open>0 < a\<close>\<close>
  "ilog b a =
     (if 1 \<le> a then ndigits (int b) \<lfloor>a\<rfloor> - 1
      else - ndigits (int b) (\<lceil>1 / a\<rceil> - 1))"

definition round_tie :: "int \<Rightarrow> rat \<Rightarrow> int" where
  \<comment> \<open>\<open>f\<close> or \<open>f + 1\<close>, by the fraction \<open>d\<close> above \<open>f\<close>; a tie goes to the even one\<close>
  "round_tie f d =
     (if d < 1 / 2 then f else if 1 / 2 < d then f + 1 else if even f then f else f + 1)"

definition round_frac :: "rat \<Rightarrow> int \<Rightarrow> int" where
  "round_frac m f = round_tie f (m - of_int f)"

definition round_half_even :: "rat \<Rightarrow> int" where
  "round_half_even m = round_frac m \<lfloor>m\<rfloor>"

definition fl_pack :: "bool \<Rightarrow> int \<Rightarrow> int \<Rightarrow> number" where
  \<comment> \<open>the value \<open>n * 2 ^ q\<close>; it is \<open>2 ^ 1024\<close> or more when \<open>971 < q\<close>, or \<open>q = 971\<close> and
      the significand was rounded up to \<open>2 ^ 53\<close>\<close>
  "fl_pack s q n =
     (if 971 < q \<or> q = 971 \<and> 2 ^ 53 \<le> n then Infinity s
      else Finite s (of_int n * scale 2 q))"

definition fl_at :: "bool \<Rightarrow> rat \<Rightarrow> int \<Rightarrow> number" where
  "fl_at s a q = fl_pack s q (round_half_even (a / scale 2 q))"

definition fl :: "bool \<Rightarrow> rat \<Rightarrow> number" where
  \<comment> \<open>the Number value for a magnitude \<open>0 \<le> a\<close> with sign \<open>s\<close>: round to nearest, ties to
      even, 53 significant bits, subnormals below \<open>2 ^ -1022\<close>, overflow to infinity\<close>
  "fl s a = (if a = 0 then Finite s 0 else fl_at s a (max (ilog 2 a) (- 1022) - 52))"

definition fl_signed :: "rat \<Rightarrow> number" where
  "fl_signed v = fl (v < 0) \<bar>v\<bar>"

fun signed :: "bool \<Rightarrow> rat \<Rightarrow> rat" where
  "signed s a = (if s then - a else a)"

fun fneg :: "number \<Rightarrow> number" where
  "fneg NaN = NaN"
| "fneg (Infinity s) = Infinity (\<not> s)"
| "fneg (Finite s a) = Finite (\<not> s) a"

fun fadd :: "number \<Rightarrow> number \<Rightarrow> number" where
  "fadd NaN y = NaN"
| "fadd x NaN = NaN"
| "fadd (Infinity s) (Infinity t) = (if s = t then Infinity s else NaN)"
| "fadd (Infinity s) (Finite t b) = Infinity s"
| "fadd (Finite s a) (Infinity t) = Infinity t"
| "fadd (Finite s a) (Finite t b) =
     (let v = signed s a + signed t b
      in if v = 0 then Finite (s \<and> t) 0 else fl_signed v)"

definition fsub :: "number \<Rightarrow> number \<Rightarrow> number" where
  "fsub x y = fadd x (fneg y)"

fun fmul :: "number \<Rightarrow> number \<Rightarrow> number" where
  "fmul NaN y = NaN"
| "fmul x NaN = NaN"
| "fmul (Infinity s) (Infinity t) = Infinity (s \<noteq> t)"
| "fmul (Infinity s) (Finite t b) = (if b = 0 then NaN else Infinity (s \<noteq> t))"
| "fmul (Finite s a) (Infinity t) = (if a = 0 then NaN else Infinity (s \<noteq> t))"
| "fmul (Finite s a) (Finite t b) = fl (s \<noteq> t) (a * b)"

fun fdiv :: "number \<Rightarrow> number \<Rightarrow> number" where
  "fdiv NaN y = NaN"
| "fdiv x NaN = NaN"
| "fdiv (Infinity s) (Infinity t) = NaN"
| "fdiv (Infinity s) (Finite t b) = Infinity (s \<noteq> t)"
| "fdiv (Finite s a) (Infinity t) = Finite (s \<noteq> t) 0"
| "fdiv (Finite s a) (Finite t b) =
     (if b = 0 then (if a = 0 then NaN else Infinity (s \<noteq> t))
      else fl (s \<noteq> t) (a / b))"

fun isNaN :: "number \<Rightarrow> bool" where
  "isNaN NaN = True"
| "isNaN x = False"

fun isFinite :: "jsval \<Rightarrow> bool" where
  "isFinite (Num (Finite s a)) = True"
| "isFinite v = False"

fun is_zero :: "number \<Rightarrow> bool" where
  \<comment> \<open>\<open>x === 0\<close>: true of both zeros\<close>
  "is_zero (Finite s a) = (a = 0)"
| "is_zero x = False"

fun less_zero :: "number \<Rightarrow> bool" where
  \<comment> \<open>\<open>x < 0\<close>\<close>
  "less_zero (Finite s a) = (s \<and> a \<noteq> 0)"
| "less_zero (Infinity s) = s"
| "less_zero NaN = False"

fun Math_round :: "number \<Rightarrow> number" where
  \<comment> \<open>the nearest integer, a tie going towards \<open>+\<infinity>\<close>; a result of zero keeps the sign
      of the argument\<close>
  "Math_round (Finite s a) =
     (let n = \<lfloor>signed s a + 1 / 2\<rfloor> in Finite (if n = 0 then s else n < 0) (of_int \<bar>n\<bar>))"
| "Math_round x = x"

section \<open>Strings to Numbers and back\<close>

definition isDigit :: "char \<Rightarrow> bool" where
  "isDigit c = (c \<in> set ''0123456789'')"

definition digit_value :: "char \<Rightarrow> int" where
  "digit_value c = of_char c - 48"

definition digit_char :: "int \<Rightarrow> char" where
  "digit_char d = char_of (48 + d)"

definition digits_value :: "string \<Rightarrow> int" where
  "digits_value ds = foldl (\<lambda>a c. 10 * a + digit_value c) 0 ds"

function digits_of :: "int \<Rightarrow> string" where
  \<comment> \<open>the decimal digits of \<open>0 \<le> n\<close>, without leading zeros\<close>
  "digits_of n = (if n < 10 then [digit_char n] else digits_of (n div 10) @ [digit_char (n mod 10)])"
  by pat_completeness auto
termination
  by (relation "measure nat") auto

declare digits_of.simps [simp del]

definition isWhiteSpace :: "char \<Rightarrow> bool" where
  \<comment> \<open>the white space and line terminators that are single bytes\<close>
  "isWhiteSpace c = (c \<in> set [CHR 0x09, CHR 0x0A, CHR 0x0B, CHR 0x0C, CHR 0x0D, CHR 0x20])"

definition decimal :: "bool \<Rightarrow> string \<Rightarrow> int \<Rightarrow> number" where
  \<comment> \<open>the Number value of the digits \<open>ds\<close> times \<open>10 ^ ex\<close>\<close>
  "decimal neg ds ex = fl neg (of_int (digits_value ds) * scale 10 ex)"

definition exponent_digits :: "bool \<Rightarrow> string \<Rightarrow> int" where
  "exponent_digits neg ds =
     (if takeWhile isDigit ds = [] then 0
      else if neg then - digits_value (takeWhile isDigit ds)
      else digits_value (takeWhile isDigit ds))"

fun exponent_part :: "string \<Rightarrow> int" where
  \<comment> \<open>the exponent an \<open>e\<close> or \<open>E\<close> with a signed integer after it gives; 0 when the text
      does not go on with one\<close>
  "exponent_part [] = 0"
| "exponent_part (c # cs) =
     (if c = CHR ''e'' \<or> c = CHR ''E'' then
        (case cs of
           [] \<Rightarrow> 0
         | d # ds \<Rightarrow>
             if d = CHR ''+'' then exponent_digits False ds
             else if d = CHR ''-'' then exponent_digits True ds
             else exponent_digits False cs)
      else 0)"

definition parse_unsigned :: "bool \<Rightarrow> string \<Rightarrow> number" where
  "parse_unsigned neg u =
     (if take 8 u = ''Infinity'' then Infinity neg
      else
        (case dropWhile isDigit u of
           [] \<Rightarrow> if takeWhile isDigit u = [] then NaN else decimal neg (takeWhile isDigit u) 0
         | c # r \<Rightarrow>
             if c = CHR ''.'' then
               (if takeWhile isDigit u = [] \<and> takeWhile isDigit r = [] then NaN
                else decimal neg (takeWhile isDigit u @ takeWhile isDigit r)
                       (exponent_part (dropWhile isDigit r) - int (length (takeWhile isDigit r))))
             else if takeWhile isDigit u = [] then NaN
             else decimal neg (takeWhile isDigit u) (exponent_part (c # r))))"

definition parse_signed :: "string \<Rightarrow> number" where
  "parse_signed t =
     (case t of
        [] \<Rightarrow> NaN
      | c # r \<Rightarrow>
          if c = CHR ''-'' then parse_unsigned True r
          else if c = CHR ''+'' then parse_unsigned False r
          else parse_unsigned False t)"

definition parseFloat :: "string \<Rightarrow> number" where
  \<comment> \<open>the longest prefix, after leading white space, that is a decimal literal; NaN when
      there is none\<close>
  "parseFloat str = parse_signed (dropWhile isWhiteSpace str)"

text \<open>
  \<open>Number::toString\<close>: the fewest digits \<open>s\<close> (\<open>k\<close> of them) and the exponent \<open>n\<close> with
  \<open>s * 10 ^ (n - k)\<close> rounding to the value. For \<open>k\<close> digits the two decimals next to the
  value are tried; of two that round to it the closer is taken, the even one on a tie.
\<close>

definition closer :: "rat \<Rightarrow> rat \<Rightarrow> int \<Rightarrow> int" where
  \<comment> \<open>of the decimals \<open>lo * g\<close> and \<open>(lo + 1) * g\<close> around \<open>x\<close>\<close>
  "closer x g lo = round_tie lo (x / g - of_int lo)"

definition pick_at :: "rat \<Rightarrow> rat \<Rightarrow> int \<Rightarrow> int option" where
  "pick_at x g lo =
     (if fl False (of_int lo * g) = Finite False x then
        (if fl False (of_int (lo + 1) * g) = Finite False x then Some (closer x g lo) else Some lo)
      else if fl False (of_int (lo + 1) * g) = Finite False x then Some (lo + 1)
      else None)"

definition pick :: "rat \<Rightarrow> int \<Rightarrow> int \<Rightarrow> (int \<times> int) option" where
  \<comment> \<open>\<open>k\<close> digits for \<open>x\<close>, where \<open>10 ^ (n0 - 1) \<le> x < 10 ^ n0\<close>\<close>
  "pick x n0 k =
     (case pick_at x (scale 10 (n0 - k)) \<lfloor>x / scale 10 (n0 - k)\<rfloor> of
        None \<Rightarrow> None
      | Some s \<Rightarrow> if s = 10 ^ nat k then Some (10 ^ nat (k - 1), n0 + 1) else Some (s, n0))"

fun search :: "rat \<Rightarrow> int \<Rightarrow> int list \<Rightarrow> (int \<times> int \<times> int) option" where
  "search x n0 [] = None"
| "search x n0 (k # ks) =
     (case pick x n0 k of Some (s, n) \<Rightarrow> Some (s, n, k) | None \<Rightarrow> search x n0 ks)"

definition shortest :: "rat \<Rightarrow> int \<times> int \<times> int" where
  \<comment> \<open>\<open>(s, n, k)\<close>; seventeen digits tell every binary64 value from its neighbours, so
      the search ends there\<close>
  "shortest x =
     (case search x (ilog 10 x + 1) [1, 2, 3, 4, 5, 6, 7, 8, 9, 10, 11, 12, 13, 14, 15, 16] of
        Some r \<Rightarrow> r
      | None \<Rightarrow> (round_half_even (x / scale 10 (ilog 10 x + 1 - 17)), ilog 10 x + 1, 17))"

definition exponent_text :: "int \<Rightarrow> string" where
  \<comment> \<open>\<open>e\<close>, the sign, and the digits of the exponent\<close>
  "exponent_text e = ''e'' @ (if e < 0 then ''-'' else ''+'') @ digits_of \<bar>e\<bar>"

definition render :: "string \<Rightarrow> int \<Rightarrow> int \<Rightarrow> string" where
  \<comment> \<open>the digits \<open>ds\<close> (\<open>k\<close> of them) with the decimal point after \<open>n\<close> digits\<close>
  "render ds n k =
     (if k \<le> n \<and> n \<le> 21 then ds @ replicate (nat (n - k)) (CHR ''0'')
      else if 0 < n \<and> n \<le> 21 then take (nat n) ds @ ''.'' @ drop (nat n) ds
      else if - 6 < n \<and> n \<le> 0 then ''0.'' @ replicate (nat (- n)) (CHR ''0'') @ ds
      else if k = 1 then ds @ exponent_text (n - 1)
      else take 1 ds @ ''.'' @ drop 1 ds @ exponent_text (n - 1))"

definition render_shortest :: "int \<times> int \<times> int \<Rightarrow> string" where
  "render_shortest r = (case r of (s, n, k) \<Rightarrow> render (digits_of s) n k)"

fun Number_toString :: "number \<Rightarrow> string" where
  \<comment> \<open>\<open>String(x)\<close> for a Number \<open>x\<close>\<close>
  "Number_toString NaN = ''NaN''"
| "Number_toString (Infinity s) = (if s then ''-Infinity'' else ''Infinity'')"
| "Number_toString (Finite s a) =
     (if a = 0 then ''0''
      else (if s then ''-'' else []) @ render_shortest (shortest a))"

definition fraction_text :: "nat \<Rightarrow> string \<Rightarrow> string" where
  \<comment> \<open>the decimal point and the digits after it, when there are any\<close>
  "fraction_text f ds = (if f = 0 then [] else ''.'' @ ds)"

definition exp_digits :: "nat \<Rightarrow> int \<Rightarrow> int \<Rightarrow> string" where
  \<comment> \<open>\<open>n\<close> is the value over \<open>10 ^ (e - f)\<close>, rounded; when that reaches \<open>10 ^ (f + 1)\<close> the
      exponent is one more\<close>
  "exp_digits f e n =
     (if n = 10 ^ (f + 1)
      then ''1'' @ fraction_text f (replicate f (CHR ''0'')) @ exponent_text (e + 1)
      else take 1 (digits_of n) @ fraction_text f (drop 1 (digits_of n)) @ exponent_text e)"

fun toExponential :: "number \<Rightarrow> nat \<Rightarrow> string" where
  \<comment> \<open>\<open>x.toExponential(f)\<close>, for \<open>f\<close> from 0 to 100; of two decimals equally near, the
      larger\<close>
  "toExponential NaN f = ''NaN''"
| "toExponential (Infinity s) f = (if s then ''-Infinity'' else ''Infinity'')"
| "toExponential (Finite s a) f =
     (if a = 0 then ''0'' @ fraction_text f (replicate f (CHR ''0'')) @ ''e+0''
      else (if s then ''-'' else []) @
           exp_digits f (ilog 10 a) \<lfloor>a / scale 10 (ilog 10 a - int f) + 1 / 2\<rfloor>)"

section \<open>The Math object\<close>

text \<open>
  The language leaves the values of \<open>Math.pow\<close>, \<open>Math.sin\<close>, \<open>Math.cos\<close>, \<open>Math.tan\<close>,
  \<open>Math.log\<close>, \<open>Math.log10\<close> and \<open>Math.sqrt\<close> to the implementation, up to the cases it
  fixes. The implementation's functions are a parameter; \<open>approx_log10\<close> is \<open>None\<close>
  where \<open>Math.log10\<close> does not exist.
\<close>

record math =
  approx_pow :: "number \<Rightarrow> number \<Rightarrow> number"
  approx_sin :: "number \<Rightarrow> number"
  approx_cos :: "number \<Rightarrow> number"
  approx_tan :: "number \<Rightarrow> number"
  approx_log :: "number \<Rightarrow> number"
  approx_log10 :: "(number \<Rightarrow> number) option"
  approx_sqrt :: "number \<Rightarrow> number"

definition Math_PI :: number where
  "Math_PI = Finite False (884279719003555 / 281474976710656)"

definition Math_E :: number where
  "Math_E = Finite False (6121026514868073 / 2251799813685248)"

definition Math_LN10 :: number where
  "Math_LN10 = Finite False (2592480341699211 / 1125899906842624)"

definition Math_pow :: "math \<Rightarrow> number \<Rightarrow> number \<Rightarrow> number" where
  \<comment> \<open>fixed by the language: a NaN exponent gives NaN, a zero exponent gives 1, then a NaN
      base gives NaN\<close>
  "Math_pow M b e =
     (if isNaN e then NaN else if is_zero e then Finite False 1
      else if isNaN b then NaN else approx_pow M b e)"

definition Math_fun :: "(number \<Rightarrow> number) \<Rightarrow> number \<Rightarrow> number" where
  \<comment> \<open>fixed by the language for each of the one-argument functions: NaN gives NaN\<close>
  "Math_fun f x = (if isNaN x then NaN else f x)"

section \<open>The operator table and the tokens\<close>

text \<open>Tokens are strings. \<open>OPERATORS\<close> gives the \<open>prec\<close> and \<open>assoc\<close> members of the table's
  own keys, \<open>OPERATORS_fn\<close> the \<open>fn\<close> member.\<close>

record opspec =
  prec :: int
  assoc :: string

definition OPERATORS :: "string \<Rightarrow> opspec option" where
  "OPERATORS t =
     (if t = ''+'' then Some \<lparr>prec = 2, assoc = ''L''\<rparr>
      else if t = ''-'' then Some \<lparr>prec = 2, assoc = ''L''\<rparr>
      else if t = ''*'' then Some \<lparr>prec = 3, assoc = ''L''\<rparr>
      else if t = ''/'' then Some \<lparr>prec = 3, assoc = ''L''\<rparr>
      else if t = ''^'' then Some \<lparr>prec = 4, assoc = ''R''\<rparr>
      else None)"

definition OPERATORS_fn :: "math \<Rightarrow> string \<Rightarrow> (jsval \<Rightarrow> jsval \<Rightarrow> number) option" where
  \<comment> \<open>the arithmetic operators convert \<open>undefined\<close> to NaN, and so does \<open>Math.pow\<close>\<close>
  "OPERATORS_fn M t =
     (if t = ''+'' then Some (\<lambda>a b. fadd (ToNumber a) (ToNumber b))
      else if t = ''-'' then Some (\<lambda>a b. fsub (ToNumber a) (ToNumber b))
      else if t = ''*'' then Some (\<lambda>a b. fmul (ToNumber a) (ToNumber b))
      else if t = ''/'' then Some (\<lambda>a b. fdiv (ToNumber a) (ToNumber b))
      else if t = ''^'' then Some (\<lambda>a b. Math_pow M (ToNumber a) (ToNumber b))
      else None)"

definition Object_prototype_keys :: "string list" where
  \<comment> \<open>the properties every object literal inherits; \<open>in\<close> finds them too\<close>
  "Object_prototype_keys =
     [''constructor'', ''hasOwnProperty'', ''isPrototypeOf'', ''propertyIsEnumerable'',
      ''toLocaleString'', ''toString'', ''valueOf'', ''__proto__'', ''__defineGetter__'',
      ''__defineSetter__'', ''__lookupGetter__'', ''__lookupSetter__'']"

definition in_OPERATORS :: "string \<Rightarrow> bool" where
  \<comment> \<open>\<open>t in OPERATORS\<close>\<close>
  "in_OPERATORS t = (OPERATORS t \<noteq> None \<or> t \<in> set Object_prototype_keys)"

definition assoc_is :: "string \<Rightarrow> string \<Rightarrow> bool" where
  \<comment> \<open>\<open>OPERATORS[t].assoc === a\<close>; an inherited property has no \<open>assoc\<close>\<close>
  "assoc_is t a = (case OPERATORS t of Some sp \<Rightarrow> assoc sp = a | None \<Rightarrow> False)"

definition prec_le :: "string \<Rightarrow> string \<Rightarrow> bool" where
  \<comment> \<open>\<open>OPERATORS[t].prec <= OPERATORS[o2].prec\<close>; false when either is \<open>undefined\<close>\<close>
  "prec_le t o2 =
     (case OPERATORS t of
        None \<Rightarrow> False
      | Some a \<Rightarrow> (case OPERATORS o2 of None \<Rightarrow> False | Some b \<Rightarrow> prec a \<le> prec b))"

definition prec_less :: "string \<Rightarrow> string \<Rightarrow> bool" where
  \<comment> \<open>\<open>OPERATORS[t].prec < OPERATORS[o2].prec\<close>\<close>
  "prec_less t o2 =
     (case OPERATORS t of
        None \<Rightarrow> False
      | Some a \<Rightarrow> (case OPERATORS o2 of None \<Rightarrow> False | Some b \<Rightarrow> prec a < prec b))"

definition isNumberToken :: "string \<Rightarrow> bool" where
  \<comment> \<open>the test of \<open>/^-?\d+(?:\.\d+)?$/\<close>\<close>
  "isNumberToken t =
     (let u = (case t of [] \<Rightarrow> [] | c # r \<Rightarrow> if c = CHR ''-'' then r else t)
      in takeWhile isDigit u \<noteq> [] \<and>
         (case dropWhile isDigit u of
            [] \<Rightarrow> True
          | c # r \<Rightarrow> c = CHR ''.'' \<and> r \<noteq> [] \<and> list_all isDigit r))"

definition operand :: "string \<Rightarrow> bool" where
  \<comment> \<open>the tokens of the first branch of \<open>toRPN\<close>: they go to the output\<close>
  "operand t = (isNumberToken t \<or> t = ''pi'' \<or> t = ''e'')"

definition isFunctionToken :: "string \<Rightarrow> bool" where
  \<comment> \<open>the tokens of the last branch of \<open>toRPN\<close>, the function names\<close>
  "isFunctionToken t = (\<not> operand t \<and> \<not> in_OPERATORS t \<and> t \<noteq> ''('' \<and> t \<noteq> '')'')"

section \<open>Infix to postfix: \<open>toRPN\<close>\<close>

text \<open>
  A call ends in a value (\<open>Inr\<close>) or in an error (\<open>Inl\<close>). The source throws nothing
  itself; calling the missing \<open>fn\<close> of an inherited key is a \<open>TypeError\<close>.
  \<open>MalformedExpression\<close> and \<open>StackUnderflow\<close> are the error kinds of the specification.
\<close>

datatype error = TypeError | MalformedExpression | StackUnderflow

text \<open>The arrays \<open>output\<close> and \<open>ops\<close>: \<open>output\<close> grows at its end; \<open>ops\<close> is a stack, kept
  here with its top as the head of the list.\<close>

definition pops :: "string \<Rightarrow> string \<Rightarrow> bool" where
  \<comment> \<open>the test under which the incoming operator \<open>t\<close> pops the stack top \<open>o2\<close>\<close>
  "pops t o2 =
     (in_OPERATORS o2 \<and>
      (assoc_is t ''L'' \<and> prec_le t o2 \<or> assoc_is t ''R'' \<and> prec_less t o2))"

fun pop_while :: "string \<Rightarrow> string list \<Rightarrow> string list \<Rightarrow> string list \<times> string list" where
  "pop_while t output [] = (output, [])"
| "pop_while t output (o2 # ops) =
     (if pops t o2 then pop_while t (output @ [o2]) ops else (output, o2 # ops))"

fun pop_to_paren :: "string list \<Rightarrow> string list \<Rightarrow> string list \<times> string list" where
  \<comment> \<open>the loop of the \<open>)\<close> branch and the \<open>ops.pop()\<close> after it, which leaves an empty
      stack as it is\<close>
  "pop_to_paren output [] = (output, [])"
| "pop_to_paren output (o2 # ops) =
     (if o2 \<noteq> ''('' then pop_to_paren (output @ [o2]) ops else (output, ops))"

fun toRPN_step :: "string \<Rightarrow> string list \<times> string list \<Rightarrow> string list \<times> string list" where
  "toRPN_step t (output, ops) =
     (if isNumberToken t \<or> t = ''pi'' \<or> t = ''e'' then (output @ [t], ops)
      else if in_OPERATORS t then
        (case pop_while t output ops of (output', ops') \<Rightarrow> (output', t # ops'))
      else if t = ''('' then (output, t # ops)
      else if t = '')'' then pop_to_paren output ops
      else (output, t # ops))"

declare toRPN_step.simps [simp del]

fun toRPN_loop :: "string list \<Rightarrow> string list \<times> string list \<Rightarrow> string list \<times> string list" where
  "toRPN_loop [] st = st"
| "toRPN_loop (t # ts) st = toRPN_loop ts (toRPN_step t st)"

fun drain :: "string list \<Rightarrow> string list \<Rightarrow> string list" where
  \<comment> \<open>\<open>while (ops.length) output.push(ops.pop())\<close>\<close>
  "drain output [] = output"
| "drain output (o2 # ops) = drain (output @ [o2]) ops"

definition toRPN :: "string list \<Rightarrow> error + string list" where
  \<comment> \<open>there is no \<open>throw\<close> in \<open>toRPN\<close>, and nothing it calls throws: every call returns\<close>
  "toRPN tokens =
     (case toRPN_loop tokens ([], []) of (output, ops) \<Rightarrow> Inr (drain output ops))"

section \<open>Postfix evaluation: \<open>evalRPN\<close>\<close>

fun pop :: "number list \<Rightarrow> jsval \<times> number list" where
  "pop [] = (Undefined, [])"
| "pop (x # stack) = (Num x, stack)"

definition radians :: "bool \<Rightarrow> jsval \<Rightarrow> number" where
  \<comment> \<open>\<open>state.degMode ? a * Math.PI / 180 : a\<close>\<close>
  "radians degMode a =
     (if degMode then fdiv (fmul (ToNumber a) Math_PI) (Finite False 180) else ToNumber a)"

definition apply_function :: "math \<Rightarrow> bool \<Rightarrow> string \<Rightarrow> jsval \<Rightarrow> number" where
  \<comment> \<open>the \<open>switch\<close> on the function name\<close>
  "apply_function M degMode t a =
     (if t = ''sin'' then Math_fun (approx_sin M) (radians degMode a)
      else if t = ''cos'' then Math_fun (approx_cos M) (radians degMode a)
      else if t = ''tan'' then Math_fun (approx_tan M) (radians degMode a)
      else if t = ''ln'' then Math_fun (approx_log M) (ToNumber a)
      else if t = ''log'' then
        (case approx_log10 M of
           Some f \<Rightarrow> Math_fun f (ToNumber a)
         | None \<Rightarrow> fdiv (Math_fun (approx_log M) (ToNumber a)) Math_LN10)
      else if t = ''sqrt'' then
        (if less_zero (ToNumber a) then NaN else Math_fun (approx_sqrt M) (ToNumber a))
      else if t = ''neg'' then fneg (ToNumber a)
      else if t = ''square'' then fmul (ToNumber a) (ToNumber a)
      else if t = ''reciprocal'' then
        (if a \<noteq> Undefined \<and> is_zero (ToNumber a) then Infinity False
         else fdiv (Finite False 1) (ToNumber a))
      else NaN)"

definition evalRPN_step :: "math \<Rightarrow> bool \<Rightarrow> string \<Rightarrow> number list \<Rightarrow> error + number list" where
  "evalRPN_step M degMode t stack =
     (if isNumberToken t then Inr (parseFloat t # stack)
      else if t = ''pi'' then Inr (Math_PI # stack)
      else if t = ''e'' then Inr (Math_E # stack)
      else if in_OPERATORS t then
        (case pop stack of (b, stack1) \<Rightarrow>
           (case pop stack1 of (a, stack2) \<Rightarrow>
              (case OPERATORS_fn M t of
                 Some f \<Rightarrow> Inr (f a b # stack2)
               | None \<Rightarrow> Inl TypeError)))
      else
        (case pop stack of (a, stack1) \<Rightarrow> Inr (apply_function M degMode t a # stack1)))"

fun evalRPN_loop :: "math \<Rightarrow> bool \<Rightarrow> string list \<Rightarrow> number list \<Rightarrow> error + number list" where
  "evalRPN_loop M degMode [] stack = Inr stack"
| "evalRPN_loop M degMode (t # ts) stack =
     (case evalRPN_step M degMode t stack of
        Inl err \<Rightarrow> Inl err
      | Inr stack' \<Rightarrow> evalRPN_loop M degMode ts stack')"

definition evalRPN :: "math \<Rightarrow> bool \<Rightarrow> string list \<Rightarrow> error + jsval" where
  \<comment> \<open>the value is \<open>stack.pop()\<close> after the loop\<close>
  "evalRPN M degMode rpn =
     (case evalRPN_loop M degMode rpn [] of
        Inl err \<Rightarrow> Inl err
      | Inr stack \<Rightarrow> Inr (fst (pop stack)))"

definition evaluateExpression :: "math \<Rightarrow> bool \<Rightarrow> string list \<Rightarrow> jsval" where
  \<comment> \<open>both calls are inside the \<open>try\<close>; the \<open>catch\<close> returns NaN\<close>
  "evaluateExpression M degMode tokens =
     (case toRPN tokens of
        Inl err \<Rightarrow> Num NaN
      | Inr rpn \<Rightarrow> (case evalRPN M degMode rpn of Inl err \<Rightarrow> Num NaN | Inr val \<Rightarrow> val))"

section \<open>The formatter\<close>

definition MAX_DISPLAY_LENGTH :: nat where
  "MAX_DISPLAY_LENGTH = 16"

definition rounded12 :: "number \<Rightarrow> number" where
  \<comment> \<open>\<open>Math.round(n * 1e12) / 1e12\<close>\<close>
  "rounded12 n =
     fdiv (Math_round (fmul n (Finite False 1000000000000))) (Finite False 1000000000000)"

definition formatNumber :: "number \<Rightarrow> string" where
  "formatNumber n =
     (if \<not> isFinite (Num n) then ''Error''
      else if MAX_DISPLAY_LENGTH < length (Number_toString (rounded12 n))
      then toExponential (rounded12 n) 10
      else Number_toString (rounded12 n))"

text \<open>
  The formatter as the specification words it: the rounded value in plain decimal form,
  that is its shortest digits with the decimal point put in place and no exponent, and
  scientific notation with ten fraction digits when that is longer than sixteen
  characters.
\<close>

definition plain_render :: "string \<Rightarrow> int \<Rightarrow> int \<Rightarrow> string" where
  "plain_render ds n k =
     (if k \<le> n then ds @ replicate (nat (n - k)) (CHR ''0'')
      else if 0 < n then take (nat n) ds @ ''.'' @ drop (nat n) ds
      else ''0.'' @ replicate (nat (- n)) (CHR ''0'') @ ds)"

fun plain_decimal :: "number \<Rightarrow> string" where
  "plain_decimal NaN = ''NaN''"
| "plain_decimal (Infinity s) = (if s then ''-Infinity'' else ''Infinity'')"
| "plain_decimal (Finite s a) =
     (if a = 0 then ''0''
      else (if s then ''-'' else []) @
           (case shortest a of (d, n, k) \<Rightarrow> plain_render (digits_of d) n k))"

definition exponent_form :: "string \<Rightarrow> int \<Rightarrow> string" where
  \<comment> \<open>scientific notation: the first digit, the point and the other digits when there
      are any, then \<open>e\<close>, the sign and the exponent \<open>x\<close>\<close>
  "exponent_form ds x =
     take 1 ds @ (if length ds = 1 then [] else ''.'' @ drop 1 ds) @ exponent_text x"

definition specified_format :: "number \<Rightarrow> string" where
  "specified_format n =
     (if \<not> isFinite (Num n) then ''Error''
      else if 16 < length (plain_decimal (rounded12 n)) then toExponential (rounded12 n) 10
      else plain_decimal (rounded12 n))"

fun same_number :: "number \<Rightarrow> number \<Rightarrow> bool" where
  \<comment> \<open>\<open>x === y\<close> for Numbers that are not NaN: the two zeros are the same number\<close>
  "same_number (Finite s a) (Finite t b) = (a = b \<and> (s = t \<or> a = 0))"
| "same_number x y = (x = y \<and> x \<noteq> NaN)"

section \<open>The engine state and its operations\<close>

text \<open>The state bundle; \<open>null\<close> is \<open>None\<close>. The history in \<open>localStorage\<close> and the page are
  outside the state.\<close>

record state =
  displayValue :: string
  firstOperand :: "number option"
  operator :: "string option"
  waitingForSecondOperand :: bool
  memory :: number
  exprTokens :: "string list"
  currentToken :: string
  degMode :: bool

definition initial_state :: state where
  "initial_state =
     \<lparr>displayValue = ''0'', firstOperand = None, operator = None,
      waitingForSecondOperand = False, memory = Finite False 0, exprTokens = [],
      currentToken = [], degMode = False\<rparr>"

definition resetCalculator :: "state \<Rightarrow> state" where
  "resetCalculator s =
     s\<lparr>displayValue := ''0'', firstOperand := None, operator := None,
       waitingForSecondOperand := False\<rparr>"

definition inputDigit :: "string \<Rightarrow> state \<Rightarrow> state" where
  "inputDigit digit s =
     (let s1 = (if currentToken s = ''0'' then s\<lparr>currentToken := digit\<rparr>
                else s\<lparr>currentToken := currentToken s @ digit\<rparr>)
      in s1\<lparr>displayValue := currentToken s1\<rparr>)"

definition push_current :: "state \<Rightarrow> state" where
  \<comment> \<open>\<open>if (state.currentToken) { state.exprTokens.push(state.currentToken);
      state.currentToken = '' }\<close>; the empty string is the falsy one\<close>
  "push_current s =
     (if currentToken s \<noteq> [] then s\<lparr>exprTokens := exprTokens s @ [currentToken s], currentToken := []\<rparr>
      else s)"

definition handleOperator :: "string \<Rightarrow> state \<Rightarrow> state" where
  \<comment> \<open>called with the action names \<open>add\<close>, \<open>subtract\<close>, \<open>multiply\<close> and \<open>divide\<close>, and
      with nothing else; a name that is no key of \<open>map\<close> is pushed as it is. For a name
      that \<open>map\<close> inherits (\<open>toString\<close>, \<open>constructor\<close>, ...) the source pushes the
      inherited function, which is no string: that case is outside this definition\<close>
  "handleOperator nextOperator s =
     (let s1 = push_current s;
          sym = (if nextOperator = ''add'' then ''+''
                 else if nextOperator = ''subtract'' then ''-''
                 else if nextOperator = ''multiply'' then ''*''
                 else if nextOperator = ''divide'' then ''/''
                 else nextOperator)
      in s1\<lparr>exprTokens := exprTokens s1 @ [sym]\<rparr>)"

definition equals :: "math \<Rightarrow> state \<Rightarrow> state" where
  "equals M s =
     (let s1 = push_current s
      in if exprTokens s1 = [] then s1
         else let val = evaluateExpression M (degMode s1) (exprTokens s1);
                  formatted = (if isFinite val then formatNumber (ToNumber val) else ''Error'')
              in s1\<lparr>displayValue := formatted, exprTokens := [], firstOperand := None,
                    operator := None, waitingForSecondOperand := False\<rparr>)"

text \<open>The four properties of \<open>unaryOps\<close>, which are the four names \<open>applyUnary\<close> is
  called with.\<close>

datatype unary = Negate | Sqrt | Square | Reciprocal

fun unaryOps :: "math \<Rightarrow> unary \<Rightarrow> number \<Rightarrow> number" where
  "unaryOps M Negate x = fneg x"
| "unaryOps M Sqrt x = (if less_zero x then NaN else Math_fun (approx_sqrt M) x)"
| "unaryOps M Square x = fmul x x"
| "unaryOps M Reciprocal x = (if is_zero x then Infinity False else fdiv (Finite False 1) x)"

definition applyUnary :: "math \<Rightarrow> unary \<Rightarrow> state \<Rightarrow> state" where
  "applyUnary M op s =
     (let target = (if currentToken s \<noteq> [] then currentToken s else displayValue s);
          val = parseFloat target
      in if isNaN val then s
         else let result = unaryOps M op val;
                  formatted = formatNumber result;
                  s1 = (if currentToken s \<noteq> [] then s\<lparr>currentToken := Number_toString result\<rparr>
                        else s);
                  s2 = s1\<lparr>displayValue := formatted\<rparr>
              in if formatted = ''Error'' then (resetCalculator s2)\<lparr>displayValue := ''Error''\<rparr>
                 else s2)"

definition memoryClear :: "state \<Rightarrow> state" where
  "memoryClear s = s\<lparr>memory := Finite False 0\<rparr>"

definition memoryRecall :: "state \<Rightarrow> state" where
  "memoryRecall s =
     s\<lparr>displayValue := formatNumber (memory s), waitingForSecondOperand := False\<rparr>"

definition memoryPlus :: "state \<Rightarrow> state" where
  "memoryPlus s =
     (let v = parseFloat (displayValue s)
      in if \<not> isNaN v then s\<lparr>memory := fadd (memory s) v\<rparr> else s)"

definition memoryMinus :: "state \<Rightarrow> state" where
  "memoryMinus s =
     (let v = parseFloat (displayValue s)
      in if \<not> isNaN v then s\<lparr>memory := fsub (memory s) v\<rparr> else s)"

subsection \<open>The basic calculator of \<open>script.js\<close>\<close>

text \<open>The same state without the expression; its memory functions are those above, word
  for word.\<close>

record basic_state =
  basic_displayValue :: string
  basic_firstOperand :: "number option"
  basic_operator :: "string option"
  basic_waitingForSecondOperand :: bool
  basic_memory :: number

definition initial_basic_state :: basic_state where
  "initial_basic_state =
     \<lparr>basic_displayValue = ''0'', basic_firstOperand = None, basic_operator = None,
      basic_waitingForSecondOperand = False, basic_memory = Finite False 0\<rparr>"

definition basic_resetCalculator :: "basic_state \<Rightarrow> basic_state" where
  "basic_resetCalculator s =
     s\<lparr>basic_displayValue := ''0'', basic_firstOperand := None, basic_operator := None,
       basic_waitingForSecondOperand := False\<rparr>"

definition basic_inputDigit :: "string \<Rightarrow> basic_state \<Rightarrow> basic_state" where
  "basic_inputDigit digit s =
     (if basic_waitingForSecondOperand s
      then s\<lparr>basic_displayValue := digit, basic_waitingForSecondOperand := False\<rparr>
      else s\<lparr>basic_displayValue :=
               (if basic_displayValue s = ''0'' then digit else basic_displayValue s @ digit)\<rparr>)"

definition basic_applyUnary :: "math \<Rightarrow> unary \<Rightarrow> basic_state \<Rightarrow> basic_state" where
  "basic_applyUnary M op s =
     (let val = parseFloat (basic_displayValue s)
      in if isNaN val then s
         else let formatted = formatNumber (unaryOps M op val);
                  s1 = s\<lparr>basic_displayValue := formatted\<rparr>
              in if formatted = ''Error''
                 then (basic_resetCalculator s1)\<lparr>basic_displayValue := ''Error''\<rparr>
                 else s1\<lparr>basic_waitingForSecondOperand := False\<rparr>)"

section \<open>Infix expressions and their standard reading\<close>

text \<open>
  An infix expression over number tokens, binary operators and parentheses, as a tree;
  \<open>tokens_of\<close> is the token sequence it is written as.
\<close>

datatype expr = Number string | Binary string expr expr | Parens expr

fun tokens_of :: "expr \<Rightarrow> string list" where
  "tokens_of (Number n) = [n]"
| "tokens_of (Binary b l r) = tokens_of l @ [b] @ tokens_of r"
| "tokens_of (Parens x) = [''(''] @ tokens_of x @ ['')'']"

fun postfix_of :: "expr \<Rightarrow> string list" where
  "postfix_of (Number n) = [n]"
| "postfix_of (Binary b l r) = postfix_of l @ postfix_of r @ [b]"
| "postfix_of (Parens x) = postfix_of x"

definition binary_value :: "math \<Rightarrow> string \<Rightarrow> number \<Rightarrow> number \<Rightarrow> number" where
  \<comment> \<open>what the operator means: IEEE addition, subtraction, multiplication and division,
      and \<open>Math.pow\<close>\<close>
  "binary_value M b x y =
     (if b = ''+'' then fadd x y
      else if b = ''-'' then fsub x y
      else if b = ''*'' then fmul x y
      else if b = ''/'' then fdiv x y
      else Math_pow M x y)"

fun value_of :: "math \<Rightarrow> expr \<Rightarrow> number" where
  "value_of M (Number n) = parseFloat n"
| "value_of M (Binary b l r) = binary_value M b (value_of M l) (value_of M r)"
| "value_of M (Parens x) = value_of M x"

text \<open>
  The binding strength of the standard reading: sums and differences 2, products and
  quotients 3, powers 4, and 5 for a number or a parenthesised expression.
\<close>

definition strength :: "string \<Rightarrow> nat" where
  "strength b =
     (if b = ''+'' \<or> b = ''-'' then 2 else if b = ''*'' \<or> b = ''/'' then 3 else 4)"

fun level :: "expr \<Rightarrow> nat" where
  "level (Number n) = 5"
| "level (Binary b l r) = strength b"
| "level (Parens x) = 5"

fun standard :: "expr \<Rightarrow> bool" where
  \<comment> \<open>the tree is the one standard precedence reads from its tokens: \<open>+ - * /\<close> group to
      the left and bind their right operand more tightly, \<open>^\<close> groups to the right\<close>
  "standard (Number n) = isNumberToken n"
| "standard (Parens x) = standard x"
| "standard (Binary b l r) =
     (b \<in> {''+'', ''-'', ''*'', ''/'', ''^''} \<and> standard l \<and> standard r \<and>
      (if b = ''^'' then strength b < level l \<and> strength b \<le> level r
       else strength b \<le> level l \<and> strength b < level r))"

text \<open>
  Where the conversion stands after the tokens of an expression: \<open>front\<close> is what has
  reached the output, \<open>pending\<close> the operators still on the stack, top first. \<open>leftmost\<close>
  are the operators that meet the stack as it was before the expression.
\<close>

fun front :: "expr \<Rightarrow> string list" where
  "front (Number n) = [n]"
| "front (Binary b l r) = postfix_of l @ front r"
| "front (Parens x) = postfix_of x"

fun pending :: "expr \<Rightarrow> string list" where
  "pending (Number n) = []"
| "pending (Binary b l r) = pending r @ [b]"
| "pending (Parens x) = []"

fun leftmost :: "expr \<Rightarrow> string set" where
  "leftmost (Number n) = {}"
| "leftmost (Binary b l r) = insert b (leftmost l)"
| "leftmost (Parens x) = {}"

fun stops :: "string \<Rightarrow> string list \<Rightarrow> bool" where
  \<comment> \<open>the operator \<open>t\<close> pops nothing off this stack\<close>
  "stops t [] = True"
| "stops t (o2 # ops) = (\<not> pops t o2)"

definition binops :: "string set" where
  "binops = {''+'', ''-'', ''*'', ''/'', ''^''}"

text \<open>
  One implementation of the Math functions, to evaluate with: powers with a natural
  exponent are the exact power, rounded; nothing else is computed.
\<close>

fun exact_pow :: "number \<Rightarrow> number \<Rightarrow> number" where
  "exact_pow (Finite s a) (Finite False n) =
     (if of_int \<lfloor>n\<rfloor> = n then fl_signed (signed s a ^ nat \<lfloor>n\<rfloor>) else NaN)"
| "exact_pow b e = NaN"

definition sample_math :: math where
  "sample_math =
     \<lparr>approx_pow = exact_pow, approx_sin = (\<lambda>x. NaN), approx_cos = (\<lambda>x. NaN),
      approx_tan = (\<lambda>x. NaN), approx_log = (\<lambda>x. NaN), approx_log10 = None,
      approx_sqrt = (\<lambda>x. NaN)\<rparr>"

section \<open>Conversion and evaluation follow standard precedence\<close>

lemma toRPN_loop_append:
  "toRPN_loop (xs @ ys) st = toRPN_loop ys (toRPN_loop xs st)"
  by (induction xs arbitrary: st) auto

lemma drain_append: "drain out ops = out @ ops"
  by (induction ops arbitrary: out) auto

lemma front_pending: "front e @ pending e = postfix_of e"
  by (induction e) auto

lemma binop_token:
  assumes "b \<in> binops"
  shows "\<not> isNumberToken b" "b \<noteq> ''pi''" "b \<noteq> ''e''" "in_OPERATORS b" "b \<noteq> ''(''" "b \<noteq> '')''"
  using assms
  by (auto simp: binops_def isNumberToken_def isDigit_def in_OPERATORS_def OPERATORS_def)

lemma paren_token:
  "\<not> isNumberToken ''(''" "\<not> in_OPERATORS ''(''" "\<not> isNumberToken '')''" "\<not> in_OPERATORS '')''"
  by (auto simp: isNumberToken_def isDigit_def in_OPERATORS_def OPERATORS_def
      Object_prototype_keys_def)

lemma pops_binops:
  assumes "t \<in> binops" "u \<in> binops"
  shows "pops t u \<longleftrightarrow> (if t = ''^'' then strength t < strength u else strength t \<le> strength u)"
  using assms
  by (auto simp: binops_def pops_def in_OPERATORS_def OPERATORS_def assoc_is_def prec_le_def
      prec_less_def strength_def)

lemma pop_while_all:
  assumes "\<forall>u \<in> set xs. pops t u" "stops t ops"
  shows "pop_while t out (xs @ ops) = (out @ xs, ops)"
  using assms
proof (induction xs arbitrary: out)
  case Nil
  then show ?case by (cases ops) auto
next
  case (Cons x xs)
  then show ?case by simp
qed

lemma pop_to_paren_all:
  assumes "\<forall>u \<in> set xs. u \<noteq> ''(''"
  shows "pop_to_paren out (xs @ ''('' # ops) = (out @ xs, ops)"
  using assms by (induction xs arbitrary: out) auto

lemma pending_binops:
  "standard e \<Longrightarrow> u \<in> set (pending e) \<Longrightarrow> u \<in> binops \<and> level e \<le> strength u"
proof (induction e)
  case (Binary b l r)
  then show ?case by (auto simp: binops_def split: if_splits)
qed auto

lemma leftmost_binops:
  "standard e \<Longrightarrow> t \<in> leftmost e \<Longrightarrow> t \<in> binops \<and> level e \<le> strength t"
proof (induction e)
  case (Binary b l r)
  then show ?case by (auto simp: binops_def split: if_splits)
qed auto

text \<open>
  The invariant of the conversion. Started on a stack that none of the leftmost operators
  of \<open>e\<close> pops, the tokens of \<open>e\<close> add \<open>front e\<close> to the output and leave \<open>pending e\<close> on
  the stack.
\<close>

lemma toRPN_loop_standard:
  "standard e \<Longrightarrow> (\<forall>t \<in> leftmost e. stops t ops) \<Longrightarrow>
   toRPN_loop (tokens_of e) (out, ops) = (out @ front e, pending e @ ops)"
proof (induction e arbitrary: out ops)
  case (Number n)
  then show ?case by (simp add: toRPN_step.simps)
next
  case (Parens x)
  have std: "standard x" using Parens.prems by simp
  have "\<forall>t \<in> leftmost x. stops t (''('' # ops)"
    by (simp add: pops_def paren_token)
  then have inner:
    "toRPN_loop (tokens_of x) (out, ''('' # ops) = (out @ front x, pending x @ ''('' # ops)"
    using Parens.IH [OF std] by blast
  have no_paren: "\<forall>u \<in> set (pending x). u \<noteq> ''(''"
    using pending_binops [OF std] binop_token(5) by blast
  show ?case
    by (simp add: toRPN_loop_append toRPN_step.simps paren_token inner
        pop_to_paren_all [OF no_paren] front_pending)
next
  case (Binary b l r)
  have b: "b \<in> binops" and l: "standard l" and r: "standard r"
    using Binary.prems(1) by (auto simp: binops_def)
  have left: "toRPN_loop (tokens_of l) (out, ops) = (out @ front l, pending l @ ops)"
    using Binary.IH(1) [OF l] Binary.prems(2) by simp
  have popped: "\<forall>u \<in> set (pending l). pops b u"
  proof
    fix u assume u: "u \<in> set (pending l)"
    from pending_binops [OF l u] have "u \<in> binops" "level l \<le> strength u" by auto
    with Binary.prems(1) b show "pops b u"
      by (auto simp: pops_binops split: if_splits)
  qed
  have "stops b ops" using Binary.prems(2) by simp
  from pop_while_all [OF popped this]
  have step: "toRPN_step b (out @ front l, pending l @ ops) = (out @ postfix_of l, b # ops)"
    by (simp add: toRPN_step.simps binop_token [OF b] front_pending)
  have "\<forall>t \<in> leftmost r. stops t (b # ops)"
  proof
    fix t assume t: "t \<in> leftmost r"
    from leftmost_binops [OF r t] have t': "t \<in> binops" "level r \<le> strength t" by auto
    have "\<not> pops t b"
      using Binary.prems(1) t' b
      by (auto simp: pops_binops strength_def binops_def split: if_splits)
    then show "stops t (b # ops)" by simp
  qed
  from Binary.IH(2) [OF r this]
  have right: "toRPN_loop (tokens_of r) (out @ postfix_of l, b # ops)
      = (out @ postfix_of l @ front r, pending r @ b # ops)"
    by simp
  show ?case
    by (simp add: toRPN_loop_append left step right)
qed

lemma toRPN_standard: "standard e \<Longrightarrow> toRPN (tokens_of e) = Inr (postfix_of e)"
  using toRPN_loop_standard [of e "[]" "[]"]
  by (simp add: toRPN_def drain_append front_pending)

lemma evalRPN_loop_append:
  "evalRPN_loop M d (xs @ ys) st =
     (case evalRPN_loop M d xs st of Inl err \<Rightarrow> Inl err | Inr st' \<Rightarrow> evalRPN_loop M d ys st')"
  by (induction xs arbitrary: st) (auto split: sum.splits)

lemma evalRPN_step_number:
  "isNumberToken n \<Longrightarrow> evalRPN_step M d n st = Inr (parseFloat n # st)"
  by (simp add: evalRPN_step_def)

lemma evalRPN_step_binop:
  "b \<in> binops \<Longrightarrow> evalRPN_step M d b (y # x # st) = Inr (binary_value M b x y # st)"
  by (auto simp: evalRPN_step_def binop_token OPERATORS_fn_def binary_value_def binops_def)

lemma evalRPN_loop_postfix:
  "standard e \<Longrightarrow> evalRPN_loop M d (postfix_of e) st = Inr (value_of M e # st)"
proof (induction e arbitrary: st)
  case (Number n)
  then show ?case by (simp add: evalRPN_step_number)
next
  case (Binary b l r)
  then have "b \<in> binops" "standard l" "standard r" by (auto simp: binops_def)
  with Binary.IH show ?case
    by (simp add: evalRPN_loop_append evalRPN_step_binop)
next
  case (Parens x)
  then show ?case by simp
qed

lemma evaluateExpression_standard:
  "standard e \<Longrightarrow> evaluateExpression M d (tokens_of e) = Num (value_of M e)"
  by (simp add: evaluateExpression_def evalRPN_def toRPN_standard evalRPN_loop_postfix)

lemma five_plus_three_times_two:
  "fadd (parseFloat ''5'') (fmul (parseFloat ''3'') (parseFloat ''2'')) = Finite False 11"
  by code_simp

lemma two_plus_three_times_four:
  "fmul (fadd (parseFloat ''2'') (parseFloat ''3'')) (parseFloat ''4'') = Finite False 20"
  by code_simp

lemma standard_sum_of_product:
  "standard (Binary ''+'' (Number ''5'') (Binary ''*'' (Number ''3'') (Number ''2'')))"
  by code_simp

lemma standard_product_of_parens:
  "standard (Binary ''*'' (Parens (Binary ''+'' (Number ''2'') (Number ''3''))) (Number ''4''))"
  by code_simp

text \<open>
  Claim C1. For every infix expression over number tokens, the operators \<open>+ - * / ^\<close> and
  balanced parentheses, \<open>toRPN\<close> followed by \<open>evalRPN\<close> gives the value of the expression
  read with standard precedence and associativity: the value of the tree \<open>e\<close> that
  \<open>standard\<close> accepts, on its token sequence \<open>tokens_of e\<close>. The tokens \<open>5 + 3 * 2\<close> give 11
  and \<open>( 2 + 3 ) * 4\<close> give 20. This holds for every implementation \<open>M\<close> of the Math
  functions and in both angle modes.
\<close>

theorem toRPN_evalRPN_standard_precedence:
  "(\<forall>e. standard e \<longrightarrow> evaluateExpression M deg (tokens_of e) = Num (value_of M e)) \<and>
   evaluateExpression M deg [''5'', ''+'', ''3'', ''*'', ''2''] = Num (Finite False 11) \<and>
   evaluateExpression M deg [''('', ''2'', ''+'', ''3'', '')'', ''*'', ''4''] = Num (Finite False 20)"
proof (intro conjI allI impI)
  fix e assume "standard e"
  then show "evaluateExpression M deg (tokens_of e) = Num (value_of M e)"
    by (rule evaluateExpression_standard)
next
  show "evaluateExpression M deg [''5'', ''+'', ''3'', ''*'', ''2''] = Num (Finite False 11)"
    using evaluateExpression_standard [OF standard_sum_of_product, of M deg]
    by (simp add: binary_value_def five_plus_three_times_two)
next
  show "evaluateExpression M deg [''('', ''2'', ''+'', ''3'', '')'', ''*'', ''4'']
      = Num (Finite False 20)"
    using evaluateExpression_standard [OF standard_product_of_parens, of M deg]
    by (simp add: binary_value_def two_plus_three_times_four)
qed

theorem toRPN_evalRPN_standard_precedence_witness:
  "standard (Binary ''-'' (Binary ''-'' (Number ''10'') (Number ''4'')) (Number ''3'')) \<and>
   evaluateExpression sample_math False [''10'', ''-'', ''4'', ''-'', ''3''] = Num (Finite False 3)"
proof -
  have std: "standard (Binary ''-'' (Binary ''-'' (Number ''10'') (Number ''4'')) (Number ''3''))"
    by code_simp
  have val: "fsub (fsub (parseFloat ''10'') (parseFloat ''4'')) (parseFloat ''3'') = Finite False 3"
    by code_simp
  from toRPN_evalRPN_standard_precedence [of sample_math False] std
  have "evaluateExpression sample_math False
          (tokens_of (Binary ''-'' (Binary ''-'' (Number ''10'') (Number ''4'')) (Number ''3'')))
        = Num (value_of sample_math
            (Binary ''-'' (Binary ''-'' (Number ''10'') (Number ''4'')) (Number ''3'')))"
    by blast
  then show ?thesis
    using std by (simp add: binary_value_def val)
qed

section \<open>Right associativity of the power operator\<close>

lemma power_tower_standard:
  "isNumberToken a \<Longrightarrow> isNumberToken b \<Longrightarrow> isNumberToken c \<Longrightarrow>
   standard (Binary ''^'' (Number a) (Binary ''^'' (Number b) (Number c)))"
  by (simp add: strength_def)

lemma two_and_three:
  "isNumberToken ''2''" "isNumberToken ''3''"
  "parseFloat ''2'' = Finite False 2" "parseFloat ''3'' = Finite False 3"
  by code_simp+

text \<open>
  Claim C2. \<open>^\<close> groups to the right: for number tokens \<open>a\<close>, \<open>b\<close>, \<open>c\<close> the tokens
  \<open>a ^ b ^ c\<close> convert to \<open>a b c ^ ^\<close> and evaluate to \<open>Math.pow(a, Math.pow(b, c))\<close>. For
  \<open>2 ^ 3 ^ 2\<close> that is 512 as soon as the implementation's power is exact at \<open>(3, 2)\<close> and
  \<open>(2, 9)\<close>; the other grouping would need the powers at \<open>(2, 3)\<close> and \<open>(8, 2)\<close>.
\<close>

theorem power_right_associative:
  "(isNumberToken a \<and> isNumberToken b \<and> isNumberToken c \<longrightarrow>
      toRPN [a, ''^'', b, ''^'', c] = Inr [a, b, c, ''^'', ''^''] \<and>
      evaluateExpression M deg [a, ''^'', b, ''^'', c]
        = Num (Math_pow M (parseFloat a) (Math_pow M (parseFloat b) (parseFloat c)))) \<and>
   (approx_pow M (Finite False 3) (Finite False 2) = Finite False 9 \<and>
    approx_pow M (Finite False 2) (Finite False 9) = Finite False 512 \<longrightarrow>
      evaluateExpression M deg [''2'', ''^'', ''3'', ''^'', ''2''] = Num (Finite False 512))"
proof (intro conjI impI)
  assume n: "isNumberToken a \<and> isNumberToken b \<and> isNumberToken c"
  then have std: "standard (Binary ''^'' (Number a) (Binary ''^'' (Number b) (Number c)))"
    using power_tower_standard by blast
  from toRPN_standard [OF std]
  show "toRPN [a, ''^'', b, ''^'', c] = Inr [a, b, c, ''^'', ''^'']" by simp
  from evaluateExpression_standard [OF std, of M deg]
  show "evaluateExpression M deg [a, ''^'', b, ''^'', c]
        = Num (Math_pow M (parseFloat a) (Math_pow M (parseFloat b) (parseFloat c)))"
    by (simp add: binary_value_def)
next
  assume p: "approx_pow M (Finite False 3) (Finite False 2) = Finite False 9 \<and>
    approx_pow M (Finite False 2) (Finite False 9) = Finite False 512"
  have std: "standard (Binary ''^'' (Number ''2'') (Binary ''^'' (Number ''3'') (Number ''2'')))"
    by (rule power_tower_standard) (rule two_and_three)+
  from evaluateExpression_standard [OF std, of M deg] p
  show "evaluateExpression M deg [''2'', ''^'', ''3'', ''^'', ''2''] = Num (Finite False 512)"
    by (simp add: binary_value_def two_and_three Math_pow_def)
qed

theorem power_right_associative_witness:
  "isNumberToken ''2'' \<and> isNumberToken ''3'' \<and>
   approx_pow sample_math (Finite False 3) (Finite False 2) = Finite False 9 \<and>
   approx_pow sample_math (Finite False 2) (Finite False 9) = Finite False 512 \<and>
   toRPN [''2'', ''^'', ''3'', ''^'', ''2''] = Inr [''2'', ''3'', ''2'', ''^'', ''^''] \<and>
   evaluateExpression sample_math False [''2'', ''^'', ''3'', ''^'', ''2'']
     = Num (Finite False 512)"
proof -
  have n: "isNumberToken ''2''" "isNumberToken ''3''" by code_simp+
  have p: "approx_pow sample_math (Finite False 3) (Finite False 2) = Finite False 9"
    "approx_pow sample_math (Finite False 2) (Finite False 9) = Finite False 512"
    by code_simp+
  show ?thesis
    using power_right_associative [of "''2''" "''3''" "''2''" sample_math False] n p by blast
qed

section \<open>Unbalanced parentheses\<close>

lemma toRPN_returns:
  "toRPN tokens
     = Inr (fst (toRPN_loop tokens ([], [])) @ snd (toRPN_loop tokens ([], [])))"
  by (simp add: toRPN_def drain_append split: prod.splits)

lemma pop_while_keeps: "pop_while t out ops = (out', ops') \<Longrightarrow> set ops' \<subseteq> set ops"
  by (induction ops arbitrary: out) (auto split: if_splits)

lemma pop_to_paren_keeps: "pop_to_paren out ops = (out', ops') \<Longrightarrow> set ops' \<subseteq> set ops"
  by (induction ops arbitrary: out) (auto split: if_splits)

lemma toRPN_step_cases:
  "toRPN_step t (out, ops) =
     (if operand t then (out @ [t], ops)
      else if in_OPERATORS t then (fst (pop_while t out ops), t # snd (pop_while t out ops))
      else if t = '')'' then pop_to_paren out ops
      else (out, t # ops))"
  by (simp add: toRPN_step.simps operand_def split: prod.splits)

text \<open>No operand is ever on the operator stack.\<close>

lemma toRPN_step_stack:
  assumes "toRPN_step t (out, ops) = (out', ops')" "\<forall>u \<in> set ops. \<not> operand u"
  shows "\<forall>u \<in> set ops'. \<not> operand u"
proof (cases "operand t")
  case True
  with assms show ?thesis by (simp add: toRPN_step_cases)
next
  case False
  show ?thesis
  proof (cases "in_OPERATORS t")
    case True
    obtain o1 s1 where pw: "pop_while t out ops = (o1, s1)" by (cases "pop_while t out ops")
    from pop_while_keeps [OF pw] assms \<open>\<not> operand t\<close> True pw show ?thesis
      by (auto simp: toRPN_step_cases)
  next
    case no_op: False
    show ?thesis
    proof (cases "t = '')''")
      case True
      with assms False no_op have "pop_to_paren out ops = (out', ops')"
        by (simp add: toRPN_step_cases)
      from pop_to_paren_keeps [OF this] assms(2) show ?thesis by blast
    next
      case False
      with assms \<open>\<not> operand t\<close> no_op show ?thesis
        by (auto simp: toRPN_step_cases)
    qed
  qed
qed

lemma toRPN_loop_stack:
  "toRPN_loop ts (out, ops) = (out', ops') \<Longrightarrow> \<forall>u \<in> set ops. \<not> operand u \<Longrightarrow>
   \<forall>u \<in> set ops'. \<not> operand u"
proof (induction ts arbitrary: out ops)
  case Nil
  then show ?case by simp
next
  case (Cons t ts)
  obtain o1 s1 where st: "toRPN_step t (out, ops) = (o1, s1)"
    by (cases "toRPN_step t (out, ops)")
  from toRPN_step_stack [OF st Cons.prems(2)] Cons.IH [of o1 s1] Cons.prems(1) st
  show ?case by simp
qed

lemma fadd_NaN [simp]: "fadd x NaN = NaN"
  by (cases x) auto

lemma fmul_NaN [simp]: "fmul x NaN = NaN"
  by (cases x) auto

lemma fdiv_NaN [simp]: "fdiv x NaN = NaN"
  by (cases x) auto

lemma fsub_NaN [simp]: "fsub x NaN = NaN" "fsub NaN y = NaN"
  by (simp_all add: fsub_def)

lemma Math_pow_NaN [simp]: "Math_pow M x NaN = NaN"
  by (simp add: Math_pow_def)

lemma Math_fun_NaN [simp]: "Math_fun f NaN = NaN"
  by (simp add: Math_fun_def)

lemma OPERATORS_fn_NaN:
  "OPERATORS_fn M t = Some f \<Longrightarrow> ToNumber b = NaN \<Longrightarrow> f a b = NaN"
  by (auto simp: OPERATORS_fn_def split: if_splits)

lemma apply_function_NaN: "ToNumber a = NaN \<Longrightarrow> apply_function M d t a = NaN"
  by (cases a) (auto simp: apply_function_def radians_def split: option.splits)

text \<open>Once NaN is on top of the value stack, no operator and no function takes it off.\<close>

lemma evalRPN_step_NaN:
  assumes "\<not> operand t"
  shows "evalRPN_step M d t (NaN # st) = Inl TypeError \<or>
         (\<exists>st'. evalRPN_step M d t (NaN # st) = Inr (NaN # st'))"
  using assms
  by (auto simp: evalRPN_step_def operand_def OPERATORS_fn_NaN apply_function_NaN
      split: option.splits prod.splits)

lemma evalRPN_loop_NaN:
  "\<forall>t \<in> set ts. \<not> operand t \<Longrightarrow>
   (\<exists>err. evalRPN_loop M d ts (NaN # st) = Inl err) \<or>
   (\<exists>st'. evalRPN_loop M d ts (NaN # st) = Inr (NaN # st'))"
proof (induction ts arbitrary: st)
  case Nil
  then show ?case by simp
next
  case (Cons t ts)
  then have t: "\<not> operand t" and ts: "\<forall>t \<in> set ts. \<not> operand t" by auto
  from evalRPN_step_NaN [OF t, of M d st] show ?case
  proof
    assume "evalRPN_step M d t (NaN # st) = Inl TypeError"
    then show ?thesis by simp
  next
    assume "\<exists>st'. evalRPN_step M d t (NaN # st) = Inr (NaN # st')"
    then obtain st' where "evalRPN_step M d t (NaN # st) = Inr (NaN # st')" ..
    with Cons.IH [OF ts, of st'] show ?thesis by simp
  qed
qed

lemma evalRPN_step_paren: "\<exists>st'. evalRPN_step M d ''('' st = Inr (NaN # st')"
  by (cases st) (auto simp: evalRPN_step_def paren_token apply_function_def)

lemma evalRPN_open_paren:
  assumes "\<forall>t \<in> set zs. \<not> operand t"
  shows "(\<exists>err. evalRPN M d (xs @ ''('' # zs) = Inl err) \<or>
         evalRPN M d (xs @ ''('' # zs) = Inr (Num NaN)"
proof (cases "evalRPN_loop M d xs []")
  case (Inl err)
  then show ?thesis by (simp add: evalRPN_def evalRPN_loop_append)
next
  case (Inr st)
  obtain st' where p: "evalRPN_step M d ''('' st = Inr (NaN # st')"
    using evalRPN_step_paren by blast
  from evalRPN_loop_NaN [OF assms, of M d st'] show ?thesis
    by (auto simp: evalRPN_def evalRPN_loop_append Inr p)
qed

lemma evaluateExpression_open_paren:
  assumes "toRPN_loop tokens ([], []) = (out, ops)" "''('' \<in> set ops"
  shows "evaluateExpression M d tokens = Num NaN"
proof -
  from assms(2) obtain ys zs where ops: "ops = ys @ ''('' # zs"
    by (auto simp: in_set_conv_decomp)
  have "\<forall>u \<in> set ops. \<not> operand u"
    using toRPN_loop_stack [OF assms(1)] by simp
  then have zs: "\<forall>t \<in> set zs. \<not> operand t" by (simp add: ops)
  have rpn: "toRPN tokens = Inr ((out @ ys) @ ''('' # zs)"
    by (simp add: toRPN_returns assms(1) ops)
  from evalRPN_open_paren [OF zs, of M d "out @ ys"] show ?thesis
    by (auto simp: evaluateExpression_def rpn)
qed

text \<open>
  Claim C3, as stated, fails: the conversion has no failure. The tokens \<open>( 2 + 3\<close> convert
  to \<open>2 3 + (\<close>, and \<open>2 + 3 )\<close> to \<open>2 3 +\<close>.
\<close>

theorem unbalanced_parens_not_rejected:
  "toRPN [''('', ''2'', ''+'', ''3''] = Inr [''2'', ''3'', ''+'', ''(''] \<and>
   toRPN [''2'', ''+'', ''3'', '')''] = Inr [''2'', ''3'', ''+'']"
  by code_simp

text \<open>
  Claim C3, amended. \<open>toRPN\<close> returns a postfix sequence for every token sequence. At the
  end of input what is left on the stack goes to the output, an OpenParen like any other
  entry; and an expression that leaves an OpenParen on the stack evaluates to NaN, which
  the display shows as \<open>Error\<close>. So it is for \<open>( 2 + 3\<close>.
\<close>

theorem open_paren_left_evaluates_to_NaN:
  "(\<exists>rpn. toRPN tokens = Inr rpn) \<and>
   (toRPN_loop tokens ([], []) = (out, ops) \<longrightarrow> toRPN tokens = Inr (out @ ops)) \<and>
   (toRPN_loop tokens ([], []) = (out, ops) \<and> ''('' \<in> set ops \<longrightarrow>
      evaluateExpression M deg tokens = Num NaN) \<and>
   evaluateExpression M deg [''('', ''2'', ''+'', ''3''] = Num NaN"
proof (intro conjI impI)
  show "\<exists>rpn. toRPN tokens = Inr rpn" by (simp add: toRPN_returns)
  show "toRPN tokens = Inr (out @ ops)" if "toRPN_loop tokens ([], []) = (out, ops)"
    using that by (simp add: toRPN_returns)
  show "evaluateExpression M deg tokens = Num NaN"
    if "toRPN_loop tokens ([], []) = (out, ops) \<and> ''('' \<in> set ops"
    using that evaluateExpression_open_paren by blast
  have "toRPN_loop [''('', ''2'', ''+'', ''3''] ([], []) = ([''2'', ''3''], [''+'', ''(''])"
    by code_simp
  then show "evaluateExpression M deg [''('', ''2'', ''+'', ''3''] = Num NaN"
    by (rule evaluateExpression_open_paren) simp
qed

theorem open_paren_left_evaluates_to_NaN_witness:
  "toRPN_loop [''2'', ''*'', ''('', ''3'', ''+'', ''4''] ([], [])
     = ([''2'', ''3'', ''4''], [''+'', ''('', ''*'']) \<and>
   ''('' \<in> set [''+'', ''('', ''*''] \<and>
   toRPN [''2'', ''*'', ''('', ''3'', ''+'', ''4''] = Inr [''2'', ''3'', ''4'', ''+'', ''('', ''*''] \<and>
   evaluateExpression sample_math False [''2'', ''*'', ''('', ''3'', ''+'', ''4''] = Num NaN"
proof -
  have l: "toRPN_loop [''2'', ''*'', ''('', ''3'', ''+'', ''4''] ([], [])
     = ([''2'', ''3'', ''4''], [''+'', ''('', ''*''])"
    by code_simp
  have m: "''('' \<in> set [''+'', ''('', ''*'']" by simp
  from open_paren_left_evaluates_to_NaN [of "[''2'', ''*'', ''('', ''3'', ''+'', ''4'']"
      "[''2'', ''3'', ''4'']" "[''+'', ''('', ''*'']" sample_math False] l m
  show ?thesis by simp
qed

section \<open>Popping the empty value stack\<close>

lemma OPERATORS_fn_binops: "b \<in> binops \<Longrightarrow> \<exists>f. OPERATORS_fn M b = Some f"
  by (auto simp: binops_def OPERATORS_fn_def)

lemma evalRPN_step_underflow2:
  assumes "b \<in> binops"
  shows "evalRPN_step M d b [] = Inr [NaN]"
proof -
  obtain f where f: "OPERATORS_fn M b = Some f" using OPERATORS_fn_binops [OF assms] by blast
  have "f Undefined Undefined = NaN" by (rule OPERATORS_fn_NaN [OF f]) simp
  then show ?thesis by (simp add: evalRPN_step_def binop_token [OF assms] f)
qed

lemma evalRPN_step_underflow1:
  assumes "b \<in> binops"
  shows "evalRPN_step M d b [y] = Inr [if b = ''^'' \<and> is_zero y then Finite False 1 else NaN]"
  using assms
  by (cases y)
    (auto simp: evalRPN_step_def binop_token OPERATORS_fn_def binops_def Math_pow_def fsub_def)

lemma evalRPN_step_function_underflow:
  assumes "\<not> operand t" "\<not> in_OPERATORS t"
  shows "evalRPN_step M d t [] = Inr [NaN]"
  using assms by (simp add: evalRPN_step_def operand_def apply_function_NaN)

lemma evalRPN_step_no_spec_error:
  "evalRPN_step M d t st \<noteq> Inl MalformedExpression"
  "evalRPN_step M d t st \<noteq> Inl StackUnderflow"
  by (auto simp: evalRPN_step_def split: prod.splits option.splits)

lemma evalRPN_loop_no_spec_error:
  "evalRPN_loop M d ts st \<noteq> Inl MalformedExpression"
  "evalRPN_loop M d ts st \<noteq> Inl StackUnderflow"
  by (induction ts arbitrary: st) (use evalRPN_step_no_spec_error in \<open>auto split: sum.splits\<close>)

lemma evalRPN_no_spec_error:
  "evalRPN M d rpn \<noteq> Inl MalformedExpression" "evalRPN M d rpn \<noteq> Inl StackUnderflow"
  using evalRPN_loop_no_spec_error by (auto simp: evalRPN_def split: sum.splits)

text \<open>
  Claim C4, as stated, fails: an expression that is one operator evaluates to NaN, with
  no error.
\<close>

theorem lone_operator_no_StackUnderflow:
  "evalRPN sample_math False [''+''] = Inr (Num NaN)"
  by code_simp

text \<open>
  Claim C4, amended. \<open>evalRPN\<close> never ends in \<open>StackUnderflow\<close>. A pop of the empty stack
  gives \<open>undefined\<close>, which the arithmetic reads as NaN: a binary operator met with the
  stack empty pushes NaN; met with one value \<open>y\<close> it pushes NaN as well, but for \<open>^\<close> with
  \<open>y\<close> zero, where \<open>Math.pow\<close> gives 1; a function name met with the stack empty pushes
  NaN. An expression that is one operator evaluates to NaN, shown as \<open>Error\<close>.
\<close>

theorem underflow_gives_NaN:
  "evalRPN M deg rpn \<noteq> Inl StackUnderflow \<and>
   (b \<in> binops \<longrightarrow>
      evalRPN_step M deg b [] = Inr [NaN] \<and>
      evalRPN_step M deg b [y] = Inr [if b = ''^'' \<and> is_zero y then Finite False 1 else NaN] \<and>
      evalRPN M deg [b] = Inr (Num NaN) \<and>
      evaluateExpression M deg [b] = Num NaN) \<and>
   (\<not> operand t \<and> \<not> in_OPERATORS t \<longrightarrow> evalRPN_step M deg t [] = Inr [NaN])"
proof (intro conjI impI)
  show "evalRPN M deg rpn \<noteq> Inl StackUnderflow" by (rule evalRPN_no_spec_error)
next
  assume b: "b \<in> binops"
  show "evalRPN_step M deg b [] = Inr [NaN]" by (rule evalRPN_step_underflow2 [OF b])
  show "evalRPN_step M deg b [y] = Inr [if b = ''^'' \<and> is_zero y then Finite False 1 else NaN]"
    by (rule evalRPN_step_underflow1 [OF b])
  show e: "evalRPN M deg [b] = Inr (Num NaN)"
    by (simp add: evalRPN_def evalRPN_step_underflow2 [OF b])
  have "toRPN [b] = Inr [b]"
    by (simp add: toRPN_def toRPN_step.simps binop_token [OF b])
  then show "evaluateExpression M deg [b] = Num NaN"
    by (simp add: evaluateExpression_def e)
next
  assume "\<not> operand t \<and> \<not> in_OPERATORS t"
  then show "evalRPN_step M deg t [] = Inr [NaN]"
    by (simp add: evalRPN_step_function_underflow)
qed

theorem underflow_gives_NaN_witness:
  "''*'' \<in> binops \<and> \<not> operand ''sqrt'' \<and> \<not> in_OPERATORS ''sqrt'' \<and>
   evalRPN_step sample_math True ''*'' [Finite False 7] = Inr [NaN] \<and>
   evaluateExpression sample_math True [''*''] = Num NaN \<and>
   evalRPN_step sample_math True ''sqrt'' [] = Inr [NaN]"
proof -
  have h: "''*'' \<in> binops" "\<not> operand ''sqrt''" "\<not> in_OPERATORS ''sqrt''"
    by (simp add: binops_def, code_simp, code_simp)
  from underflow_gives_NaN [of sample_math True "[]" "''*''" "Finite False 7" "''sqrt''"] h
  show ?thesis by simp
qed

section \<open>The end of postfix evaluation\<close>

text \<open>
  Claim C5, as stated, fails: the postfix sequence \<open>1 2\<close> leaves two values and evaluates
  to 2, with no error.
\<close>

theorem trailing_operands_not_rejected:
  "evalRPN sample_math False [''1'', ''2''] = Inr (Num (Finite False 2))"
  by code_simp

text \<open>
  Claim C5, amended. \<open>evalRPN\<close> never ends in \<open>MalformedExpression\<close>. At the end of input
  its result is the value on top of the stack, whatever lies beneath it; with exactly one
  value left, that value is the result.
\<close>

theorem evalRPN_returns_top:
  "evalRPN M deg rpn \<noteq> Inl MalformedExpression \<and>
   (evalRPN_loop M deg rpn [] = Inr (v # rest) \<longrightarrow> evalRPN M deg rpn = Inr (Num v)) \<and>
   (evalRPN_loop M deg rpn [] = Inr [v] \<longrightarrow> evalRPN M deg rpn = Inr (Num v))"
proof (intro conjI impI)
  show "evalRPN M deg rpn \<noteq> Inl MalformedExpression" by (rule evalRPN_no_spec_error)
  show "evalRPN M deg rpn = Inr (Num v)" if "evalRPN_loop M deg rpn [] = Inr (v # rest)"
    using that by (simp add: evalRPN_def)
  show "evalRPN M deg rpn = Inr (Num v)" if "evalRPN_loop M deg rpn [] = Inr [v]"
    using that by (simp add: evalRPN_def)
qed

theorem evalRPN_returns_top_witness:
  "evalRPN_loop sample_math False [''1'', ''2'', ''3''] []
     = Inr [Finite False 3, Finite False 2, Finite False 1] \<and>
   evalRPN sample_math False [''1'', ''2'', ''3''] = Inr (Num (Finite False 3)) \<and>
   evalRPN_loop sample_math False [''7''] [] = Inr [Finite False 7] \<and>
   evalRPN sample_math False [''7''] = Inr (Num (Finite False 7))"
proof -
  have l: "evalRPN_loop sample_math False [''1'', ''2'', ''3''] []
      = Inr [Finite False 3, Finite False 2, Finite False 1]"
    "evalRPN_loop sample_math False [''7''] [] = Inr [Finite False 7]"
    by code_simp+
  from evalRPN_returns_top [of sample_math False "[''1'', ''2'', ''3'']" "Finite False 3"
      "[Finite False 2, Finite False 1]"]
    evalRPN_returns_top [of sample_math False "[''7'']" "Finite False 7"] l
  show ?thesis by simp
qed

section \<open>Function tokens in the conversion\<close>

lemma isFunctionToken_not_popped: "isFunctionToken f \<Longrightarrow> \<not> pops t f"
  by (simp add: isFunctionToken_def pops_def)

text \<open>
  Claim C6, as stated, fails: with \<open>sin\<close> on top of the stack above \<open>*\<close>, the incoming \<open>+\<close>
  pops nothing and is pushed above \<open>sin\<close>; the tokens \<open>2 * sin 30 + 1\<close> convert to
  \<open>2 30 1 + sin *\<close>.
\<close>

theorem operator_does_not_pop_function:
  "toRPN_step ''+'' ([''2'', ''30''], [''sin'', ''*'']) = ([''2'', ''30''], [''+'', ''sin'', ''*'']) \<and>
   toRPN [''2'', ''*'', ''sin'', ''30'', ''+'', ''1'']
     = Inr [''2'', ''30'', ''1'', ''+'', ''sin'', ''*'']"
  by code_simp

text \<open>
  Claim C6, amended. A Function token is pushed onto the operator stack. An incoming
  operator never pops a Function: with a Function on top, the operator is pushed above it
  and the output stays as it is. A CloseParen pops a Function on top to the output and
  goes on popping to the nearest OpenParen; and at the end of input whatever is left on
  the stack, Functions included, goes to the output.
\<close>

theorem function_popped_by_paren_or_end:
  "(isFunctionToken f \<longrightarrow> toRPN_step f (out, ops) = (out, f # ops)) \<and>
   (isFunctionToken f \<and> in_OPERATORS t \<and> \<not> operand t \<longrightarrow>
      toRPN_step t (out, f # ops) = (out, t # f # ops)) \<and>
   (isFunctionToken f \<longrightarrow> toRPN_step '')'' (out, f # ops) = pop_to_paren (out @ [f]) ops) \<and>
   (toRPN_loop tokens ([], []) = (out, ops) \<longrightarrow> toRPN tokens = Inr (out @ ops))"
proof (intro conjI impI)
  show "toRPN_step f (out, ops) = (out, f # ops)" if "isFunctionToken f"
    using that by (simp add: toRPN_step_cases isFunctionToken_def)
  show "toRPN_step t (out, f # ops) = (out, t # f # ops)"
    if "isFunctionToken f \<and> in_OPERATORS t \<and> \<not> operand t"
    using that by (simp add: toRPN_step_cases isFunctionToken_not_popped)
  show "toRPN_step '')'' (out, f # ops) = pop_to_paren (out @ [f]) ops" if "isFunctionToken f"
    using that by (simp add: toRPN_step.simps paren_token isFunctionToken_def)
  show "toRPN tokens = Inr (out @ ops)" if "toRPN_loop tokens ([], []) = (out, ops)"
    using that by (simp add: toRPN_returns)
qed

theorem function_popped_by_paren_or_end_witness:
  "isFunctionToken ''sin'' \<and> in_OPERATORS ''+'' \<and> \<not> operand ''+'' \<and>
   toRPN_step ''+'' ([''30''], ''sin'' # [''*'']) = ([''30''], [''+'', ''sin'', ''*'']) \<and>
   toRPN_loop [''sin'', ''30''] ([], []) = ([''30''], [''sin'']) \<and>
   toRPN [''sin'', ''30''] = Inr [''30'', ''sin'']"
proof -
  have h: "isFunctionToken ''sin''" "in_OPERATORS ''+''" "\<not> operand ''+''"
    "toRPN_loop [''sin'', ''30''] ([], []) = ([''30''], [''sin''])"
    by code_simp+
  from function_popped_by_paren_or_end [of "''sin''" "[''30'']" "[''*'']" "''+''" "[''sin'', ''30'']"]
    function_popped_by_paren_or_end [of "''sin''" "[''30'']" "[''sin'']" "''+''" "[''sin'', ''30'']"] h
  show ?thesis by simp
qed

section \<open>Powers, digits and roundings\<close>

text \<open>
  Facts about the Number model that the formatter needs: \<open>ilog\<close> finds the decimal
  exponent, \<open>digits_of\<close> writes an integer with as many digits as its size asks for, and
  the digits that \<open>shortest\<close> finds read back as the value.
\<close>

lemma scale_pos: "0 < b \<Longrightarrow> 0 < scale b z"
  by (simp add: scale_def)

lemma scale_nat: "scale b (int n) = of_nat b ^ n"
  by (simp add: scale_def)

lemma scale_Suc: "0 < b \<Longrightarrow> scale b (z + 1) = of_nat b * scale b z"
proof (cases "0 \<le> z")
  case True
  then show ?thesis by (simp add: scale_def nat_add_distrib)
next
  case False
  assume b: "0 < b"
  from False have z: "nat (- z) = Suc (nat (- (z + 1)))" by simp
  show ?thesis
  proof (cases "z = - 1")
    case True
    with b show ?thesis by (simp add: scale_def)
  next
    case False
    with \<open>\<not> 0 \<le> z\<close> have "\<not> 0 \<le> z + 1" by simp
    with b \<open>\<not> 0 \<le> z\<close> show ?thesis
      by (simp add: scale_def z del: nat_minus_as_int)
  qed
qed

lemma scale_add: "0 < b \<Longrightarrow> scale b (z + int n) = of_nat b ^ n * scale b z"
proof (induction n)
  case 0
  then show ?case by simp
next
  case (Suc n)
  have "z + int (Suc n) = (z + int n) + 1" by simp
  with Suc show ?case by (simp only: scale_Suc) (simp add: mult.assoc)
qed

lemma ndigits_pos: "0 < n \<Longrightarrow> 1 < b \<Longrightarrow> ndigits b n = ndigits b (n div b) + 1"
  by (subst ndigits.simps) simp

lemma ndigits_nonpos: "n \<le> 0 \<Longrightarrow> ndigits b n = 0"
  by (subst ndigits.simps) simp

lemma ndigits_nonneg: "0 \<le> ndigits b n"
  by (induction b n rule: ndigits.induct) (subst ndigits.simps, simp)

lemma ndigits_bounds:
  "0 < n \<Longrightarrow> 1 < b \<Longrightarrow>
   0 < ndigits b n \<and> b ^ nat (ndigits b n - 1) \<le> n \<and> n < b ^ nat (ndigits b n)"
proof (induction b n rule: ndigits.induct)
  case (1 b n)
  have unfold: "ndigits b n = ndigits b (n div b) + 1"
    using "1.prems" by (rule ndigits_pos)
  show ?case
  proof (cases "n div b = 0")
    case True
    with "1.prems" have "n < b" by presburger
    moreover have "ndigits b (n div b) = 0" using True by (simp add: ndigits_nonpos)
    ultimately show ?thesis using "1.prems" unfold by simp
  next
    case False
    have "0 \<le> n div b" using "1.prems" by (simp add: pos_imp_zdiv_nonneg_iff)
    with False have pos: "0 < n div b" by simp
    define d where "d = ndigits b (n div b)"
    from "1.IH" "1.prems" pos have ih: "0 < d" "b ^ nat (d - 1) \<le> n div b" "n div b < b ^ nat d"
      unfolding d_def by blast+
    have decomp: "n = b * (n div b) + n mod b" by simp
    have m: "0 \<le> n mod b" "n mod b < b" using "1.prems" by simp_all
    have "nat d = Suc (nat (d - 1))" using ih(1) by simp
    then have e1: "b ^ nat d = b * b ^ nat (d - 1)" by simp
    have "b * b ^ nat (d - 1) \<le> b * (n div b)"
      using ih(2) "1.prems" by simp
    with decomp m(1) have lo: "b ^ nat d \<le> n" unfolding e1 by linarith
    have "nat (d + 1) = Suc (nat d)" using ih(1) by simp
    then have e2: "b ^ nat (d + 1) = b * b ^ nat d" by simp
    have "b * (n div b + 1) \<le> b * b ^ nat d"
      using ih(3) "1.prems" by simp
    moreover have "b * (n div b + 1) = b * (n div b) + b" by (simp add: algebra_simps)
    ultimately have hi: "n < b ^ nat (d + 1)" using decomp m(2) unfolding e2 by linarith
    have "ndigits b n = d + 1" using unfold by (simp add: d_def)
    with lo hi ih(1) show ?thesis by simp
  qed
qed


lemma scale_neg: "0 \<le> d \<Longrightarrow> scale b (- d) = 1 / of_nat b ^ nat d"
  by (cases "d = 0") (simp_all add: scale_def)

lemma pow10_le_of_int: "10 ^ n \<le> f \<Longrightarrow> (10::rat) ^ n \<le> of_int f"
  by (metis of_int_le_iff of_int_numeral of_int_power)

lemma of_int_le_pow10: "f \<le> 10 ^ n \<Longrightarrow> of_int f \<le> (10::rat) ^ n"
  by (metis of_int_le_iff of_int_numeral of_int_power)

lemma ilog_bounds:
  assumes "0 < a"
  shows "scale 10 (ilog 10 a) \<le> a \<and> a < scale 10 (ilog 10 a + 1)"
proof (cases "1 \<le> a")
  case True
  define f where "f = \<lfloor>a\<rfloor>"
  define d where "d = ndigits 10 f"
  have f: "0 < f" using True by (simp add: f_def)
  from ndigits_bounds [OF f, of 10]
  have b: "0 < d" "10 ^ nat (d - 1) \<le> f" "f < 10 ^ nat d" by (simp_all add: d_def)
  have il: "ilog 10 a = d - 1" using True by (simp add: ilog_def d_def f_def)
  have "(10::rat) ^ nat (d - 1) \<le> of_int f" using b(2) by (rule pow10_le_of_int)
  moreover have "of_int f \<le> a" by (simp add: f_def)
  ultimately have "(10::rat) ^ nat (d - 1) \<le> a" by (rule order_trans)
  then have lo: "scale 10 (d - 1) \<le> a" using b(1) by (simp add: scale_def)
  have "f + 1 \<le> 10 ^ nat d" using b(3) by simp
  then have "of_int (f + 1) \<le> (10::rat) ^ nat d" by (rule of_int_le_pow10)
  moreover have "a < of_int (f + 1)" unfolding f_def by (simp only: floor_correct)
  ultimately have "a < (10::rat) ^ nat d" by (rule less_le_trans [rotated])
  then have hi: "a < scale 10 d" using b(1) by (simp add: scale_def)
  from lo hi show ?thesis by (simp add: il)
next
  case False
  define y where "y = 1 / a"
  define m where "m = \<lceil>y\<rceil> - 1"
  define d where "d = ndigits 10 m"
  have y: "1 < y" using False assms by (simp add: y_def)
  then have "1 < \<lceil>y\<rceil>" by (simp add: less_ceiling_iff)
  then have m: "0 < m" by (simp add: m_def)
  from ndigits_bounds [OF m, of 10]
  have b: "0 < d" "10 ^ nat (d - 1) \<le> m" "m < 10 ^ nat d" by (simp_all add: d_def)
  have il: "ilog 10 a = - d" using False by (simp add: ilog_def d_def m_def y_def)
  have my: "of_int m < y" by (simp add: m_def) linarith
  have ym: "y \<le> of_int (m + 1)" by (simp add: m_def)
  have "m + 1 \<le> 10 ^ nat d" using b(3) by simp
  then have "of_int (m + 1) \<le> (10::rat) ^ nat d" by (rule of_int_le_pow10)
  with ym have "y \<le> 10 ^ nat d" by (rule order_trans)
  then have "1 / 10 ^ nat d \<le> 1 / y" using y by (simp add: frac_le)
  then have lo: "scale 10 (- d) \<le> a" using b(1) assms by (simp add: scale_neg y_def)
  have "(10::rat) ^ nat (d - 1) \<le> of_int m" using b(2) by (rule pow10_le_of_int)
  with my have "10 ^ nat (d - 1) < y" by (rule le_less_trans [rotated])
  then have "1 / y < 1 / 10 ^ nat (d - 1)" by (simp add: frac_less2)
  moreover have "scale 10 (- d + 1) = 1 / 10 ^ nat (d - 1)"
    using scale_neg [of "d - 1" 10] b(1) by simp
  ultimately have hi: "a < scale 10 (- d + 1)" using assms by (simp add: y_def)
  from lo hi show ?thesis by (simp add: il)
qed


lemma digit_cases: "0 \<le> m \<Longrightarrow> m < 10 \<Longrightarrow> m = 0 \<or> m = 1 \<or> m = 2 \<or> m = 3 \<or> m = 4 \<or> m = 5 \<or> m = 6 \<or> m = 7 \<or> m = 8 \<or> m = (9::int)"
  by presburger
lemma digit_chars:
  "digit_char 0 = CHR ''0''" "digit_char 1 = CHR ''1''" "digit_char 2 = CHR ''2''"
  "digit_char 3 = CHR ''3''" "digit_char 4 = CHR ''4''" "digit_char 5 = CHR ''5''"
  "digit_char 6 = CHR ''6''" "digit_char 7 = CHR ''7''" "digit_char 8 = CHR ''8''"
  "digit_char 9 = CHR ''9''"
  by code_simp+
lemma digit_values:
  "digit_value CHR ''0'' = 0" "digit_value CHR ''1'' = 1" "digit_value CHR ''2'' = 2"
  "digit_value CHR ''3'' = 3" "digit_value CHR ''4'' = 4" "digit_value CHR ''5'' = 5"
  "digit_value CHR ''6'' = 6" "digit_value CHR ''7'' = 7" "digit_value CHR ''8'' = 8"
  "digit_value CHR ''9'' = 9"
  by (simp_all add: digit_value_def)
lemma digit_char_isDigit: "0 \<le> m \<Longrightarrow> m < 10 \<Longrightarrow> isDigit (digit_char m)"
  using digit_cases [of m] by (auto simp: isDigit_def digit_chars)
lemma digit_value_digit_char: "0 \<le> m \<Longrightarrow> m < 10 \<Longrightarrow> digit_value (digit_char m) = m"
  using digit_cases [of m] by (auto simp: digit_chars digit_values)

lemma isDigit_not_special:
  assumes "isDigit c"
  shows "c \<noteq> CHR ''.''" "c \<noteq> CHR ''-''" "c \<noteq> CHR ''+''" "c \<noteq> CHR ''e''" "c \<noteq> CHR ''I''"
    "\<not> isWhiteSpace c"
  using assms by (auto simp: isDigit_def isWhiteSpace_def)

lemma digits_of_small: "n < 10 \<Longrightarrow> digits_of n = [digit_char n]"
  by (subst digits_of.simps) simp

lemma digits_of_large:
  "10 \<le> n \<Longrightarrow> digits_of n = digits_of (n div 10) @ [digit_char (n mod 10)]"
  by (subst digits_of.simps) simp

lemma digits_of_isDigit: "0 \<le> n \<Longrightarrow> list_all isDigit (digits_of n)"
proof (induction n rule: digits_of.induct)
  case (1 n)
  show ?case
  proof (cases "n < 10")
    case True
    with 1 show ?thesis by (simp add: digits_of_small digit_char_isDigit)
  next
    case False
    with 1 show ?thesis by (simp add: digits_of_large digit_char_isDigit)
  qed
qed

lemma digits_of_nonempty: "digits_of n \<noteq> []"
  by (subst digits_of.simps) simp

lemma digits_value_snoc: "digits_value (ds @ [c]) = 10 * digits_value ds + digit_value c"
  by (simp add: digits_value_def)

lemma digits_value_digits_of: "0 \<le> n \<Longrightarrow> digits_value (digits_of n) = n"
proof (induction n rule: digits_of.induct)
  case (1 n)
  show ?case
  proof (cases "n < 10")
    case True
    with 1 show ?thesis by (simp add: digits_of_small digits_value_def digit_value_digit_char)
  next
    case False
    with 1 show ?thesis
      by (simp add: digits_of_large digits_value_snoc digit_value_digit_char)
  qed
qed

lemma digits_of_length:
  "10 ^ k \<le> n \<Longrightarrow> n < 10 ^ Suc k \<Longrightarrow> length (digits_of n) = Suc k"
proof (induction k arbitrary: n)
  case 0
  then show ?case by (simp add: digits_of_small)
next
  case (Suc k)
  have "(10::int) \<le> 10 ^ Suc k" by simp
  with Suc.prems have big: "10 \<le> n" by linarith
  have "10 ^ k \<le> n div 10" using Suc.prems(1) by simp
  moreover have "n div 10 < 10 ^ Suc k" using Suc.prems(2) by simp
  ultimately have "length (digits_of (n div 10)) = Suc k" by (rule Suc.IH)
  with big show ?case by (simp add: digits_of_large)
qed

lemma digits_of_length_ge:
  "10 ^ k \<le> n \<Longrightarrow> k < length (digits_of n)"
proof (induction k arbitrary: n)
  case 0
  then show ?case using digits_of_nonempty [of n] by (cases "digits_of n") auto
next
  case (Suc k)
  have "(10::int) \<le> 10 ^ Suc k" by simp
  with Suc.prems have big: "10 \<le> n" by linarith
  have "10 ^ k \<le> n div 10" using Suc.prems(1) by simp
  then have "k < length (digits_of (n div 10))" by (rule Suc.IH)
  with big show ?case by (simp add: digits_of_large)
qed


lemma fl_sign: "fl False v = Finite False a \<Longrightarrow> fl s v = Finite s a"
  by (auto simp: fl_def fl_at_def fl_pack_def split: if_splits)

lemma round_tie_cases: "round_tie f d = f \<or> round_tie f d = f + 1"
  by (simp add: round_tie_def)

lemma pick_at_sound:
  assumes "pick_at x g lo = Some s"
  shows "(s = lo \<or> s = lo + 1) \<and> fl False (of_int s * g) = Finite False x"
  using assms round_tie_cases [of lo "x / g - of_int lo"]
  by (auto simp: pick_at_def closer_def split: if_splits)

lemma floor_scaled_bounds:
  assumes "0 < x" "1 \<le> k"
  shows "10 ^ nat (k - 1) \<le> \<lfloor>x / scale 10 (ilog 10 x + 1 - k)\<rfloor>"
    and "\<lfloor>x / scale 10 (ilog 10 x + 1 - k)\<rfloor> < 10 ^ nat k"
proof -
  define g where "g = scale 10 (ilog 10 x + 1 - k)"
  have g: "0 < g" by (simp add: g_def scale_pos)
  from ilog_bounds [OF assms(1)]
  have b: "scale 10 (ilog 10 x) \<le> x" "x < scale 10 (ilog 10 x + 1)" by simp_all
  have "ilog 10 x = (ilog 10 x + 1 - k) + int (nat (k - 1))" using assms(2) by simp
  then have "scale 10 (ilog 10 x) = of_nat 10 ^ nat (k - 1) * g"
    unfolding g_def by (metis scale_add zero_less_numeral)
  with b(1) have "10 ^ nat (k - 1) * g \<le> x" by simp
  then have lo: "10 ^ nat (k - 1) \<le> x / g" using g by (simp add: pos_le_divide_eq)
  have "ilog 10 x + 1 = (ilog 10 x + 1 - k) + int (nat k)" using assms(2) by simp
  then have "scale 10 (ilog 10 x + 1) = of_nat 10 ^ nat k * g"
    unfolding g_def by (metis scale_add zero_less_numeral)
  with b(2) have "x < 10 ^ nat k * g" by simp
  then have hi: "x / g < 10 ^ nat k" using g by (simp add: pos_divide_less_eq)
  have "(of_int (10 ^ nat (k - 1)) :: rat) \<le> x / g" using lo by simp
  then show "10 ^ nat (k - 1) \<le> \<lfloor>x / scale 10 (ilog 10 x + 1 - k)\<rfloor>"
    unfolding g_def by (simp only: le_floor_iff)
  have "x / g < (of_int (10 ^ nat k) :: rat)" using hi by simp
  then show "\<lfloor>x / scale 10 (ilog 10 x + 1 - k)\<rfloor> < 10 ^ nat k"
    unfolding g_def by (simp only: floor_less_iff)
qed

lemma pick_sound:
  assumes "0 < x" "1 \<le> k" "pick x (ilog 10 x + 1) k = Some (d, n)"
  shows "10 ^ nat (k - 1) \<le> d \<and> d < 10 ^ nat k \<and>
         fl False (of_int d * scale 10 (n - k)) = Finite False x"
proof -
  define n0 where "n0 = ilog 10 x + 1"
  define g where "g = scale 10 (n0 - k)"
  define lo where "lo = \<lfloor>x / g\<rfloor>"
  from floor_scaled_bounds [OF assms(1,2)]
  have lo: "10 ^ nat (k - 1) \<le> lo" "lo < 10 ^ nat k" by (simp_all add: lo_def g_def n0_def)
  from assms(3) obtain s where s: "pick_at x g lo = Some s"
    and r: "(d, n) = (if s = 10 ^ nat k then (10 ^ nat (k - 1), n0 + 1) else (s, n0))"
    by (auto simp: pick_def g_def lo_def n0_def split: option.splits if_splits)
  from pick_at_sound [OF s]
  have c: "s = lo \<or> s = lo + 1" and v: "fl False (of_int s * g) = Finite False x" by simp_all
  show ?thesis
  proof (cases "s = 10 ^ nat k")
    case True
    with r have d: "d = 10 ^ nat (k - 1)" and n: "n = n0 + 1" by simp_all
    have "nat k = Suc (nat (k - 1))" using assms(2) by simp
    then have p: "(10::int) ^ nat k = 10 * 10 ^ nat (k - 1)" by simp
    have "scale 10 (n - k) = of_nat 10 * g"
      unfolding n g_def using scale_Suc [of 10 "n0 - k"] by (simp add: algebra_simps)
    then have "of_int d * scale 10 (n - k) = of_int s * g"
      by (simp add: d True p)
    with v d p show ?thesis by simp
  next
    case False
    with r have d: "d = s" and n: "n = n0" by simp_all
    from c lo False have "10 ^ nat (k - 1) \<le> s" "s < 10 ^ nat k" by auto
    with v show ?thesis by (simp add: d n g_def)
  qed
qed

lemma search_sound:
  "search x n0 ks = Some (d, n, k) \<Longrightarrow> k \<in> set ks \<and> pick x n0 k = Some (d, n)"
  by (induction ks) (auto split: option.splits)

lemma round_half_even_ge_floor: "\<lfloor>m\<rfloor> \<le> round_half_even m"
  using round_tie_cases [of "\<lfloor>m\<rfloor>" "m - of_int \<lfloor>m\<rfloor>"]
  by (auto simp: round_half_even_def round_frac_def)

lemma shortest_sound:
  assumes "0 < x" "shortest x = (d, n, k)"
  shows "(1 \<le> k \<and> k \<le> 16 \<and> 10 ^ nat (k - 1) \<le> d \<and> d < 10 ^ nat k \<and>
          fl False (of_int d * scale 10 (n - k)) = Finite False x) \<or>
         (k = 17 \<and> 10 ^ 16 \<le> d)"
proof (cases "search x (ilog 10 x + 1) [1, 2, 3, 4, 5, 6, 7, 8, 9, 10, 11, 12, 13, 14, 15, 16]")
  case None
  define q where "q = round_half_even (x / scale 10 (ilog 10 x + 1 - 17))"
  have "shortest x = (q, ilog 10 x + 1, 17)"
    unfolding shortest_def q_def None by (simp only: option.case)
  with assms(2) have d: "d = q" and k: "k = 17" by simp_all
  from floor_scaled_bounds(1) [OF assms(1), of 17]
  have "10 ^ 16 \<le> \<lfloor>x / scale 10 (ilog 10 x + 1 - 17)\<rfloor>" by simp
  with round_half_even_ge_floor [of "x / scale 10 (ilog 10 x + 1 - 17)"]
  have "10 ^ 16 \<le> d" unfolding d q_def by linarith
  with k show ?thesis by simp
next
  case (Some r)
  with assms(2) have "search x (ilog 10 x + 1) [1, 2, 3, 4, 5, 6, 7, 8, 9, 10, 11, 12, 13, 14, 15, 16]
    = Some (d, n, k)" by (simp add: shortest_def del: search.simps)
  from search_sound [OF this]
  have k: "k \<in> set [1, 2, 3, 4, 5, 6, 7, 8, 9, 10, 11, 12, 13, 14, 15, 16]"
    and p: "pick x (ilog 10 x + 1) k = Some (d, n)" by simp_all
  from k have k': "1 \<le> k" "k \<le> 16" by auto
  from pick_sound [OF assms(1) k'(1) p] k' show ?thesis by simp
qed


lemma digits_value_append:
  "digits_value (xs @ ys) = digits_value xs * 10 ^ length ys + digits_value ys"
proof (induction ys rule: rev_induct)
  case Nil
  then show ?case by (simp add: digits_value_def)
next
  case (snoc y ys)
  have "digits_value (xs @ ys @ [y]) = 10 * digits_value (xs @ ys) + digit_value y"
    using digits_value_snoc [of "xs @ ys" y] by simp
  with snoc show ?case by (simp add: digits_value_snoc algebra_simps)
qed

lemma digits_value_zeros: "digits_value (replicate j (CHR ''0'')) = 0"
  by (induction j) (simp_all add: digits_value_def digit_values)

lemma takeWhile_digits: "list_all isDigit xs \<Longrightarrow> takeWhile isDigit xs = xs"
  by (induction xs) auto

lemma dropWhile_digits: "list_all isDigit xs \<Longrightarrow> dropWhile isDigit xs = []"
  by (induction xs) auto

lemma takeWhile_digits_stop:
  "list_all isDigit xs \<Longrightarrow> \<not> isDigit c \<Longrightarrow> takeWhile isDigit (xs @ c # r) = xs"
  by (induction xs) auto

lemma dropWhile_digits_stop:
  "list_all isDigit xs \<Longrightarrow> \<not> isDigit c \<Longrightarrow> dropWhile isDigit (xs @ c # r) = c # r"
  by (induction xs) auto

lemma not_Infinity: "isDigit c \<Longrightarrow> take 8 (c # r) \<noteq> ''Infinity''"
  by (auto simp: isDigit_def)

lemma point_not_digit: "\<not> isDigit CHR ''.''"
  by (simp add: isDigit_def)

lemma parse_unsigned_integer:
  assumes "list_all isDigit u" "u \<noteq> []"
  shows "parse_unsigned neg u = decimal neg u 0"
proof -
  from assms obtain c r where u: "u = c # r" and c: "isDigit c" by (cases u) auto
  show ?thesis
    using assms not_Infinity [OF c, of r]
    by (simp add: parse_unsigned_def takeWhile_digits dropWhile_digits u [symmetric])
qed

lemma parse_unsigned_fraction:
  assumes "list_all isDigit ip" "ip \<noteq> []" "list_all isDigit fp"
  shows "parse_unsigned neg (ip @ ''.'' @ fp) = decimal neg (ip @ fp) (- int (length fp))"
proof -
  from assms obtain c r where ip: "ip = c # r" and c: "isDigit c" by (cases ip) auto
  have inf: "take 8 (ip @ ''.'' @ fp) \<noteq> ''Infinity''"
    using not_Infinity [OF c, of "r @ ''.'' @ fp"] by (simp add: ip)
  have tw: "takeWhile isDigit (ip @ ''.'' @ fp) = ip"
    using takeWhile_digits_stop [OF assms(1) point_not_digit, of fp] by simp
  have dw: "dropWhile isDigit (ip @ ''.'' @ fp) = CHR ''.'' # fp"
    using dropWhile_digits_stop [OF assms(1) point_not_digit, of fp] by simp
  show ?thesis
    unfolding parse_unsigned_def
    by (simp only: inf tw dw if_False list.case)
      (simp add: assms(2) takeWhile_digits [OF assms(3)] dropWhile_digits [OF assms(3)])
qed

section \<open>Number tokens and renderings\<close>

text \<open>
  A string with the letter \<open>e\<close> is no Number token; the plain decimal rendering is one,
  and \<open>parseFloat\<close> reads from it the decimal that the digits denote.
\<close>

lemma isNumberToken_chars:
  assumes "isNumberToken t" "c \<in> set t"
  shows "isDigit c \<or> c = CHR ''.'' \<or> c = CHR ''-''"
proof -
  define u where "u = (case t of [] \<Rightarrow> [] | c # r \<Rightarrow> if c = CHR ''-'' then r else t)"
  have t: "set t \<subseteq> insert (CHR ''-'') (set u)"
    by (cases t) (auto simp: u_def)
  from assms(1) have rest: "case dropWhile isDigit u of [] \<Rightarrow> True
      | c # r \<Rightarrow> c = CHR ''.'' \<and> r \<noteq> [] \<and> list_all isDigit r"
    by (simp add: isNumberToken_def u_def Let_def)
  have "u = takeWhile isDigit u @ dropWhile isDigit u" by simp
  then have "set u = set (takeWhile isDigit u) \<union> set (dropWhile isDigit u)"
    by (metis set_append)
  moreover have "\<forall>x \<in> set (takeWhile isDigit u). isDigit x"
    by (auto dest: set_takeWhileD)
  moreover have "\<forall>x \<in> set (dropWhile isDigit u). isDigit x \<or> x = CHR ''.''"
  proof (cases "dropWhile isDigit u")
    case Nil
    show ?thesis unfolding Nil by simp
  next
    case (Cons y ys)
    with rest have "y = CHR ''.''" "list_all isDigit ys" by (simp_all only: list.case)
    then have "\<forall>x \<in> set (y # ys). isDigit x \<or> x = CHR ''.''"
      by (auto simp: list_all_iff)
    then show ?thesis by (simp only: Cons)
  qed
  ultimately have "\<forall>x \<in> set u. isDigit x \<or> x = CHR ''.''" by auto
  with t assms(2) show ?thesis by auto
qed

lemma e_not_token: "CHR ''e'' \<in> set t \<Longrightarrow> \<not> isNumberToken t"
  using isNumberToken_chars [of t "CHR ''e''"] by (auto simp: isDigit_def)

lemma exponent_text_e: "CHR ''e'' \<in> set (exponent_text e)"
  by (simp add: exponent_text_def)

lemma render_exponent:
  "1 \<le> k \<Longrightarrow> \<not> (- 6 < n \<and> n \<le> 21) \<Longrightarrow> CHR ''e'' \<in> set (render ds n k)"
  by (auto simp: render_def exponent_text_e)

lemma render_length: "length ds \<le> length (render ds n k)"
  by (auto simp: render_def)

lemma toExponential_not_token: "\<not> isNumberToken (toExponential x f)"
proof (cases x)
  case NaN
  have "\<not> isNumberToken ''NaN''" by code_simp
  with NaN show ?thesis by simp
next
  case (Infinity s)
  have "\<not> isNumberToken ''Infinity''" "\<not> isNumberToken ''-Infinity''" by code_simp+
  with Infinity show ?thesis by simp
next
  case (Finite s a)
  have "CHR ''e'' \<in> set (toExponential (Finite s a) f)"
    by (auto simp: exp_digits_def exponent_text_e)
  with Finite show ?thesis by (simp only: e_not_token not_False_eq_True)
qed

lemma parse_render:
  assumes "list_all isDigit ds" "length ds = nat k" "1 \<le> k" "- 6 < n" "n \<le> 21"
  shows "parse_unsigned neg (render ds n k)
           = fl neg (of_int (digits_value ds) * scale 10 (n - k))"
    and "\<exists>c r. render ds n k = c # r \<and> isDigit c"
proof -
  from assms(2,3) obtain c0 r0 where ds: "ds = c0 # r0" by (cases ds) auto
  with assms(1) have c0: "isDigit c0" by simp
  consider (int) "k \<le> n" | (frac) "0 < n" "n < k" | (small) "n \<le> 0" by linarith
  then have "parse_unsigned neg (render ds n k)
           = fl neg (of_int (digits_value ds) * scale 10 (n - k)) \<and>
      (\<exists>c r. render ds n k = c # r \<and> isDigit c)"
  proof cases
    case int
    define zs where "zs = replicate (nat (n - k)) (CHR ''0'')"
    have r: "render ds n k = ds @ zs" using int assms(5) by (simp add: render_def zs_def)
    have z: "list_all isDigit zs" by (simp add: zs_def list_all_iff isDigit_def)
    have all: "list_all isDigit (ds @ zs)" using assms(1) z by simp
    have v: "digits_value (ds @ zs) = digits_value ds * 10 ^ nat (n - k)"
      by (simp add: digits_value_append zs_def digits_value_zeros)
    have sc: "scale 10 (n - k) = 10 ^ nat (n - k)" "scale 10 0 = 1"
      using int by (simp_all add: scale_def)
    have "parse_unsigned neg (ds @ zs) = fl neg (of_int (digits_value (ds @ zs)) * scale 10 0)"
      using parse_unsigned_integer [OF all, of neg] ds by (simp add: decimal_def)
    also have "of_int (digits_value (ds @ zs)) * scale 10 0
        = of_int (digits_value ds) * scale 10 (n - k)"
      by (simp only: v sc) simp
    finally have "parse_unsigned neg (ds @ zs)
        = fl neg (of_int (digits_value ds) * scale 10 (n - k))" .
    with r ds c0 show ?thesis by simp
  next
    case frac
    define ip where "ip = take (nat n) ds"
    define fp where "fp = drop (nat n) ds"
    have r: "render ds n k = ip @ ''.'' @ fp"
      using frac assms(5) by (simp add: render_def ip_def fp_def)
    have "list_all isDigit ip"
      using assms(1) by (auto simp: ip_def list_all_iff dest: in_set_takeD)
    moreover have "ip \<noteq> []" using frac ds by (simp add: ip_def)
    ultimately have ip: "list_all isDigit ip" "ip \<noteq> []" by simp_all
    have fp: "list_all isDigit fp" "int (length fp) = k - n"
      using assms(1,2) frac by (auto simp: fp_def list_all_iff dest: in_set_dropD)
    have "ip @ fp = ds" by (simp add: ip_def fp_def)
    with parse_unsigned_fraction [OF ip fp(1), of neg]
    have "parse_unsigned neg (ip @ ''.'' @ fp)
        = fl neg (of_int (digits_value ds) * scale 10 (n - k))"
      by (simp add: decimal_def fp(2))
    moreover have "\<exists>c r. ip @ ''.'' @ fp = c # r \<and> isDigit c"
      using ip by (cases ip) auto
    ultimately show ?thesis by (simp only: r) 
  next
    case small
    define zs where "zs = replicate (nat (- n)) (CHR ''0'')"
    define fp where "fp = zs @ ds"
    have zero: "isDigit CHR ''0''" by (simp add: isDigit_def)
    have r: "render ds n k = ''0'' @ ''.'' @ fp"
      using small assms(3,4) by (simp add: render_def fp_def zs_def)
    have z: "list_all isDigit ''0''" "''0'' \<noteq> []" using zero by simp_all
    have "list_all isDigit zs" using zero by (simp add: zs_def list_all_iff)
    with assms(1) have fp1: "list_all isDigit fp" by (simp add: fp_def)
    have fp2: "int (length fp) = k - n"
      using assms(2,3) small by (simp add: fp_def zs_def)
    have "digits_value (''0'' @ zs) = 0"
      using digits_value_zeros [of "Suc (nat (- n))"] by (simp add: zs_def)
    then have v: "digits_value (''0'' @ fp) = digits_value ds"
      using digits_value_append [of "''0'' @ zs" ds] by (simp add: fp_def)
    have "parse_unsigned neg (''0'' @ ''.'' @ fp)
        = fl neg (of_int (digits_value (''0'' @ fp)) * scale 10 (- int (length fp)))"
      using parse_unsigned_fraction [OF z fp1, of neg] by (simp only: decimal_def)
    also have "- int (length fp) = n - k" using fp2 by simp
    finally have "parse_unsigned neg (''0'' @ ''.'' @ fp)
        = fl neg (of_int (digits_value ds) * scale 10 (n - k))"
      by (simp only: v)
    moreover have "\<exists>c r. ''0'' @ ''.'' @ fp = c # r \<and> isDigit c"
      using zero by simp
    ultimately show ?thesis by (simp only: r)
  qed
  then show "parse_unsigned neg (render ds n k)
           = fl neg (of_int (digits_value ds) * scale 10 (n - k))"
    and "\<exists>c r. render ds n k = c # r \<and> isDigit c" by simp_all
qed

lemma token_unsigned:
  assumes "isDigit c"
  shows "isNumberToken ((if s then ''-'' else []) @ c # r) \<longleftrightarrow>
         (case dropWhile isDigit (c # r) of
            [] \<Rightarrow> True
          | p # f \<Rightarrow> p = CHR ''.'' \<and> f \<noteq> [] \<and> list_all isDigit f)"
  using assms isDigit_not_special [OF assms]
  by (cases s) (simp_all add: isNumberToken_def)

lemma token_integer:
  assumes "list_all isDigit ip" "ip \<noteq> []"
  shows "isNumberToken ((if s then ''-'' else []) @ ip)"
proof -
  from assms obtain c r where ip: "ip = c # r" and c: "isDigit c" by (cases ip) auto
  from dropWhile_digits [OF assms(1)] show ?thesis
    unfolding ip token_unsigned [OF c] by (simp only: list.case)
qed

lemma token_fraction:
  assumes "list_all isDigit ip" "ip \<noteq> []" "list_all isDigit fp" "fp \<noteq> []"
  shows "isNumberToken ((if s then ''-'' else []) @ ip @ ''.'' @ fp)"
proof -
  from assms obtain c r where ip: "ip = c # r" and c: "isDigit c" by (cases ip) auto
  have dw: "dropWhile isDigit (ip @ ''.'' @ fp) = CHR ''.'' # fp"
    using dropWhile_digits_stop [OF assms(1) point_not_digit, of fp] by simp
  have "isNumberToken ((if s then ''-'' else []) @ c # (r @ ''.'' @ fp))"
    unfolding token_unsigned [OF c] using dw assms(3,4) by (simp add: ip)
  then show ?thesis by (simp add: ip)
qed

lemma render_token:
  assumes "list_all isDigit ds" "length ds = nat k" "1 \<le> k" "- 6 < n" "n \<le> 21"
  shows "isNumberToken ((if s then ''-'' else []) @ render ds n k)"
proof -
  from assms(2,3) have ne: "ds \<noteq> []" by auto
  have zero: "isDigit CHR ''0''" by (simp add: isDigit_def)
  consider (int) "k \<le> n" | (frac) "0 < n" "n < k" | (small) "n \<le> 0" by linarith
  then show ?thesis
  proof cases
    case int
    define zs where "zs = replicate (nat (n - k)) (CHR ''0'')"
    have r: "render ds n k = ds @ zs" using int assms(5) by (simp add: render_def zs_def)
    have "list_all isDigit zs" using zero by (simp add: zs_def list_all_iff)
    with assms(1) have "list_all isDigit (ds @ zs)" by simp
    moreover have "ds @ zs \<noteq> []" using ne by simp
    ultimately show ?thesis unfolding r by (rule token_integer)
  next
    case frac
    define ip where "ip = take (nat n) ds"
    define fp where "fp = drop (nat n) ds"
    have r: "render ds n k = ip @ ''.'' @ fp"
      using frac assms(5) by (simp add: render_def ip_def fp_def)
    have ip: "list_all isDigit ip"
      using assms(1) by (auto simp: ip_def list_all_iff dest: in_set_takeD)
    have ip': "ip \<noteq> []" using frac ne by (simp add: ip_def)
    have fp: "list_all isDigit fp"
      using assms(1) by (auto simp: fp_def list_all_iff dest: in_set_dropD)
    have fp': "fp \<noteq> []" using assms(2) frac by (simp add: fp_def)
    show ?thesis unfolding r using ip ip' fp fp' by (rule token_fraction)
  next
    case small
    define zs where "zs = replicate (nat (- n)) (CHR ''0'')"
    define fp where "fp = zs @ ds"
    have r: "render ds n k = ''0'' @ ''.'' @ fp"
      using small assms(3,4) by (simp add: render_def fp_def zs_def)
    have z: "list_all isDigit ''0''" "''0'' \<noteq> []" using zero by simp_all
    have "list_all isDigit zs" using zero by (simp add: zs_def list_all_iff)
    with assms(1) have fp1: "list_all isDigit fp" by (simp add: fp_def)
    have fp2: "fp \<noteq> []" using ne by (simp add: fp_def)
    show ?thesis unfolding r using z fp1 fp2 by (rule token_fraction)
  qed
qed


section \<open>The two renderings of the formatter\<close>

lemma ten_digits:
  "digits_of (10 ^ 10) = ''10000000000''"
  "digits_of 10000000000 = ''10000000000''"
  "replicate 10 (CHR ''0'') = ''0000000000''"
  by code_simp+

lemma toExponential_ten:
  assumes "0 < a"
  shows "\<exists>m x. 10 ^ 10 \<le> m \<and> m < 10 ^ 11 \<and> length (digits_of m) = 11 \<and>
           \<bar>a - of_int m * scale 10 (x - 10)\<bar> \<le> scale 10 (x - 10) / 2 \<and>
           toExponential (Finite s a) 10
             = (if s then ''-'' else []) @ exponent_form (digits_of m) x"
proof -
  define e where "e = ilog 10 a"
  define g where "g = scale 10 (e - 10)"
  define n where "n = \<lfloor>a / g + 1 / 2\<rfloor>"
  have g: "0 < g" by (simp add: g_def scale_pos)
  from ilog_bounds [OF assms]
  have b: "scale 10 e \<le> a" "a < scale 10 (e + 1)" by (simp_all add: e_def)
  have "e = (e - 10) + int 10" by simp
  then have "scale 10 e = of_nat 10 ^ 10 * g"
    unfolding g_def by (metis scale_add zero_less_numeral)
  with b(1) have "10 ^ 10 * g \<le> a" by simp
  then have lo: "10 ^ 10 \<le> a / g" using g by (simp add: pos_le_divide_eq)
  have "e + 1 = (e - 10) + int 11" by simp
  then have "scale 10 (e + 1) = of_nat 10 ^ 11 * g"
    unfolding g_def by (metis scale_add zero_less_numeral)
  with b(2) have "a < 10 ^ 11 * g" by simp
  then have hi: "a / g < 10 ^ 11" using g by (simp add: pos_divide_less_eq)
  have n1: "of_int n \<le> a / g + 1 / 2" unfolding n_def by (rule of_int_floor_le)
  have n2: "a / g + 1 / 2 < of_int n + 1" unfolding n_def by linarith
  have "(of_int (10 ^ 10) :: rat) \<le> a / g + 1 / 2" using lo by simp
  then have nlo: "10 ^ 10 \<le> n" unfolding n_def by (simp only: le_floor_iff)
  have "a / g + 1 / 2 < (of_int (10 ^ 11 + 1) :: rat)" using hi by simp
  then have "n < 10 ^ 11 + 1" unfolding n_def by (simp only: floor_less_iff)
  then have nhi: "n \<le> 10 ^ 11" by simp
  have "\<bar>a / g - of_int n\<bar> \<le> 1 / 2" using n1 n2 by linarith
  then have "\<bar>a / g - of_int n\<bar> * g \<le> 1 / 2 * g" using g by (simp only: mult_le_cancel_right_pos)
  moreover have "\<bar>a / g - of_int n\<bar> * g = \<bar>a - of_int n * g\<bar>"
  proof -
    have "\<bar>a / g - of_int n\<bar> * g = \<bar>(a / g - of_int n) * g\<bar>" using g by (simp add: abs_mult)
    also have "(a / g - of_int n) * g = a - of_int n * g" using g by (simp add: algebra_simps)
    finally show ?thesis .
  qed
  ultimately have near: "\<bar>a - of_int n * g\<bar> \<le> g / 2" by simp
  have t: "toExponential (Finite s a) 10 = (if s then ''-'' else []) @ exp_digits 10 e n"
    using assms by (simp add: e_def n_def g_def)
  show ?thesis
  proof (cases "n = 10 ^ 11")
    case True
    define x where "x = e + 1"
    have "x - 10 = (e - 10) + 1" by (simp add: x_def)
    then have "scale 10 (x - 10) = of_nat 10 * g"
      unfolding g_def by (metis scale_Suc zero_less_numeral)
    then have s10: "scale 10 (x - 10) = 10 * g" by (simp only: of_nat_numeral)
    have "of_int (10 ^ 10) * scale 10 (x - 10) = of_int n * g"
      by (simp add: True s10)
    with near have "\<bar>a - of_int (10 ^ 10) * scale 10 (x - 10)\<bar> \<le> g / 2" by (simp only:)
    also have "g / 2 \<le> scale 10 (x - 10) / 2" using g by (simp add: s10)
    finally have r: "\<bar>a - of_int (10 ^ 10) * scale 10 (x - 10)\<bar>
      \<le> scale 10 (x - 10) / 2" .
    have "exp_digits 10 e n = exponent_form (digits_of (10 ^ 10)) x"
      by (simp add: exp_digits_def True fraction_text_def exponent_form_def ten_digits x_def)
    with t have "toExponential (Finite s a) 10
      = (if s then ''-'' else []) @ exponent_form (digits_of (10 ^ 10)) x" by (simp only:)
    moreover have "length (digits_of (10 ^ 10)) = 11" by (simp add: ten_digits)
    moreover have "(10::int) ^ 10 \<le> 10 ^ 10" "(10::int) ^ 10 < 10 ^ 11" by simp_all
    ultimately show ?thesis using r by blast
  next
    case False
    with nhi have lt: "n < 10 ^ Suc 10" by simp
    from digits_of_length [OF nlo lt] have len: "length (digits_of n) = 11" by simp
    have "exp_digits 10 e n = exponent_form (digits_of n) e"
      using False by (simp add: exp_digits_def fraction_text_def exponent_form_def len)
    with t have "toExponential (Finite s a) 10
      = (if s then ''-'' else []) @ exponent_form (digits_of n) e" by simp
    moreover have "n < 10 ^ 11" using lt by simp
    ultimately show ?thesis using nlo len near unfolding g_def by blast
  qed
qed

lemma Number_toString_forms:
  assumes "0 < a" "shortest a = (d, e, k)" "length (Number_toString (Finite s a)) \<le> 16"
  shows "1 \<le> k \<and> k \<le> 16 \<and> length (digits_of d) = nat k \<and>
         fl False (of_int d * scale 10 (e - k)) = Finite False a \<and>
         Number_toString (Finite s a) = (if s then ''-'' else []) @
           (if - 6 < e \<and> e \<le> 21 then plain_render (digits_of d) e k
            else exponent_form (digits_of d) (e - 1))"
proof -
  define u where "u = render (digits_of d) e k"
  have str: "Number_toString (Finite s a) = (if s then ''-'' else []) @ u"
    using assms(1,2) by (simp add: render_shortest_def u_def)
  have len: "length u \<le> 16" using assms(3) unfolding str by (simp split: if_splits)
  from shortest_sound [OF assms(1,2)] show ?thesis
  proof
    assume "k = 17 \<and> 10 ^ 16 \<le> d"
    then have "16 < length (digits_of d)" by (simp add: digits_of_length_ge)
    with render_length [of "digits_of d" e k] len show ?thesis by (simp add: u_def)
  next
    assume f: "1 \<le> k \<and> k \<le> 16 \<and> 10 ^ nat (k - 1) \<le> d \<and> d < 10 ^ nat k \<and>
          fl False (of_int d * scale 10 (e - k)) = Finite False a"
    then have k: "1 \<le> k" "k \<le> 16" and lo: "10 ^ nat (k - 1) \<le> d" and hi: "d < 10 ^ nat k"
      and v: "fl False (of_int d * scale 10 (e - k)) = Finite False a" by simp_all
    have "nat k = Suc (nat (k - 1))" using k by simp
    with hi have "d < 10 ^ Suc (nat (k - 1))" by simp
    from digits_of_length [OF lo this] k
    have dl: "length (digits_of d) = nat k" by simp
    then have one: "length (digits_of d) = 1 \<longleftrightarrow> k = 1" using k by auto
    have "u = (if - 6 < e \<and> e \<le> 21 then plain_render (digits_of d) e k
            else exponent_form (digits_of d) (e - 1))"
      using dl k by (auto simp: u_def render_def plain_render_def exponent_form_def one)
    with str k dl v show ?thesis by simp
  qed
qed

lemma shortest_short:
  assumes "0 < a" "shortest a = (d, e, k)" "length (Number_toString (Finite s a)) \<le> 16"
  shows "1 \<le> k \<and> k \<le> 16 \<and> 10 ^ nat (k - 1) \<le> d \<and> d < 10 ^ nat k \<and>
         fl False (of_int d * scale 10 (e - k)) = Finite False a"
proof -
  define u where "u = render (digits_of d) e k"
  have str: "Number_toString (Finite s a) = (if s then ''-'' else []) @ u"
    using assms(1,2) by (simp add: render_shortest_def u_def)
  have len: "length u \<le> 16" using assms(3) unfolding str by (simp split: if_splits)
  from shortest_sound [OF assms(1,2)] show ?thesis
  proof
    assume "k = 17 \<and> 10 ^ 16 \<le> d"
    then have "16 < length (digits_of d)" by (simp add: digits_of_length_ge)
    with render_length [of "digits_of d" e k] len show ?thesis by (simp add: u_def)
  qed
qed

lemma Number_toString_token:
  assumes "0 < a" "shortest a = (d, e, k)" "length (Number_toString (Finite s a)) \<le> 16"
  shows "isNumberToken (Number_toString (Finite s a)) \<longleftrightarrow> - 6 < e \<and> e \<le> 21"
proof -
  have str: "Number_toString (Finite s a) = (if s then ''-'' else []) @ render (digits_of d) e k"
    using assms(1,2) by (simp add: render_shortest_def)
  from Number_toString_forms [OF assms]
  have k: "1 \<le> k" and dl: "length (digits_of d) = nat k" by simp_all
  from shortest_short [OF assms] have "10 ^ nat (k - 1) \<le> d" by simp
  moreover have "(0::int) < 10 ^ nat (k - 1)" by simp
  ultimately have d: "0 \<le> d" by linarith
  show ?thesis
  proof
    assume "isNumberToken (Number_toString (Finite s a))"
    show "- 6 < e \<and> e \<le> 21"
    proof (rule ccontr)
      assume "\<not> (- 6 < e \<and> e \<le> 21)"
      from render_exponent [OF k this, of "digits_of d"]
      have "CHR ''e'' \<in> set (Number_toString (Finite s a))" unfolding str by simp
      with \<open>isNumberToken (Number_toString (Finite s a))\<close> e_not_token show False by blast
    qed
  next
    assume "- 6 < e \<and> e \<le> 21"
    then have "- 6 < e" "e \<le> 21" by simp_all
    from render_token [OF digits_of_isDigit [OF d] dl k this]
    show "isNumberToken (Number_toString (Finite s a))" unfolding str .
  qed
qed

lemma parseFloat_Number_toString:
  assumes "0 < a" "isNumberToken (Number_toString (Finite s a))"
    "length (Number_toString (Finite s a)) \<le> 16"
  shows "parseFloat (Number_toString (Finite s a)) = Finite s a"
proof -
  obtain d n k where sh: "shortest a = (d, n, k)" by (cases "shortest a")
  define u where "u = render (digits_of d) n k"
  have str: "Number_toString (Finite s a) = (if s then ''-'' else []) @ u"
    using assms(1) sh by (simp add: render_shortest_def u_def)
  have len: "length u \<le> 16" using assms(3) unfolding str by (simp split: if_splits)
  from shortest_sound [OF assms(1) sh] show ?thesis
  proof
    assume "k = 17 \<and> 10 ^ 16 \<le> d"
    then have "16 < length (digits_of d)" by (simp add: digits_of_length_ge)
    with render_length [of "digits_of d" n k] len show ?thesis by (simp add: u_def)
  next
    assume f: "1 \<le> k \<and> k \<le> 16 \<and> 10 ^ nat (k - 1) \<le> d \<and> d < 10 ^ nat k \<and>
          fl False (of_int d * scale 10 (n - k)) = Finite False a"
    then have k: "1 \<le> k" and lo: "10 ^ nat (k - 1) \<le> d" and hi: "d < 10 ^ nat k"
      and v: "fl False (of_int d * scale 10 (n - k)) = Finite False a" by simp_all
    have "(0::int) < 10 ^ nat (k - 1)" by simp
    with lo have d: "0 \<le> d" by linarith
    have "nat k = Suc (nat (k - 1))" using k by simp
    with hi have "d < 10 ^ Suc (nat (k - 1))" by simp
    from digits_of_length [OF lo this] k
    have dl: "length (digits_of d) = nat k" by simp
    have plain: "- 6 < n \<and> n \<le> 21"
    proof (rule ccontr)
      assume "\<not> (- 6 < n \<and> n \<le> 21)"
      from render_exponent [OF k this, of "digits_of d"]
      have "CHR ''e'' \<in> set (Number_toString (Finite s a))"
        unfolding str u_def by simp
      with assms(2) e_not_token show False by blast
    qed
    from parse_render [OF digits_of_isDigit [OF d] dl k, of n] plain
    have p: "\<And>neg. parse_unsigned neg u = fl neg (of_int d * scale 10 (n - k))"
      and h: "\<exists>c r. u = c # r \<and> isDigit c"
      by (simp_all add: u_def digits_value_digits_of [OF d])
    from h obtain c r where u: "u = c # r" and c: "isDigit c" by blast
    have "parseFloat ((if s then ''-'' else []) @ u) = parse_unsigned s u"
    proof (cases s)
      case True
      then show ?thesis
        by (simp add: parseFloat_def parse_signed_def isWhiteSpace_def)
    next
      case False
      with isDigit_not_special [OF c] show ?thesis
        by (simp add: u parseFloat_def parse_signed_def)
    qed
    then have "parseFloat (Number_toString (Finite s a)) = parse_unsigned s u"
      unfolding str .
    with p [of s] fl_sign [OF v, of s] show ?thesis by simp
  qed
qed

lemma fl_cases: "(\<exists>t. fl s v = Infinity t) \<or> (\<exists>m. fl s v = Finite s m)"
  by (simp add: fl_def fl_at_def fl_pack_def)

lemma floor_le_round_half_even: "0 \<le> m \<Longrightarrow> 0 \<le> round_half_even m"
  using round_half_even_ge_floor [of m] zero_le_floor [of m] by linarith

lemma fl_nonneg:
  assumes "0 \<le> v" "fl s v = Finite t m"
  shows "0 \<le> m"
proof (cases "v = 0")
  case True
  with assms show ?thesis by (simp add: fl_def)
next
  case False
  define q where "q = max (ilog 2 v) (- 1022) - 52"
  have "0 \<le> v / scale 2 q" using assms(1) scale_pos [of 2 q] by simp
  then have "0 \<le> round_half_even (v / scale 2 q)" by (rule floor_le_round_half_even)
  moreover have "m = of_int (round_half_even (v / scale 2 q)) * scale 2 q"
    using assms(2) False by (auto simp: fl_def fl_at_def fl_pack_def q_def split: if_splits)
  ultimately show ?thesis using scale_pos [of 2 q] by simp
qed

lemma rounded12_cases:
  assumes "0 \<le> a"
  shows "(\<exists>t. rounded12 (Finite s a) = Infinity t) \<or>
         (\<exists>t m. rounded12 (Finite s a) = Finite t m \<and> 0 \<le> m)"
proof -
  define c :: rat where "c = 1000000000000"
  have c: "c \<noteq> 0" "0 < c" by (simp_all add: c_def)
  have r: "rounded12 (Finite s a) = fdiv (Math_round (fl s (a * c))) (Finite False c)"
    by (simp add: rounded12_def c_def)
  from fl_cases [of s "a * c"] show ?thesis
  proof
    assume "\<exists>t. fl s (a * c) = Infinity t"
    then show ?thesis by (auto simp: r)
  next
    assume "\<exists>m. fl s (a * c) = Finite s m"
    then obtain m where m: "fl s (a * c) = Finite s m" ..
    obtain t n where mr: "Math_round (Finite s m) = Finite t (of_int \<bar>n\<bar>)"
      by (simp add: Let_def)
    have d: "fdiv (Finite t (of_int \<bar>n\<bar>)) (Finite False c) = fl t (of_int \<bar>n\<bar> / c)"
      using c by simp
    from fl_cases [of t "of_int \<bar>n\<bar> / c"] show ?thesis
    proof
      assume "\<exists>u. fl t (of_int \<bar>n\<bar> / c) = Infinity u"
      then obtain u where "fl t (of_int \<bar>n\<bar> / c) = Infinity u" ..
      then have "rounded12 (Finite s a) = Infinity u" unfolding r m mr d .
      then show ?thesis by blast
    next
      assume "\<exists>k. fl t (of_int \<bar>n\<bar> / c) = Finite t k"
      then obtain k where k: "fl t (of_int \<bar>n\<bar> / c) = Finite t k" ..
      have "0 \<le> of_int \<bar>n\<bar> / c" using c by simp
      from fl_nonneg [OF this k] have "0 \<le> k" .
      moreover have "rounded12 (Finite s a) = Finite t k" unfolding r m mr d k ..
      ultimately show ?thesis by blast
    qed
  qed
qed

lemma parseFloat_zero: "parseFloat ''0'' = Finite False 0"
  by code_simp

lemma not_tokens: "\<not> isNumberToken ''Infinity''" "\<not> isNumberToken ''-Infinity''"
  "\<not> isNumberToken ''NaN''" "\<not> isNumberToken ''Error''"
  by code_simp+

lemma formatNumber_round_trip:
  "0 \<le> a \<and> isNumberToken (formatNumber (Finite s a)) \<longrightarrow>
     same_number (parseFloat (formatNumber (Finite s a))) (rounded12 (Finite s a))"
proof (intro impI, elim conjE)
  assume a: "0 \<le> a" and tok: "isNumberToken (formatNumber (Finite s a))"
  define r where "r = rounded12 (Finite s a)"
  have short: "\<not> 16 < length (Number_toString r)"
  proof
    assume "16 < length (Number_toString r)"
    then have "formatNumber (Finite s a) = toExponential r 10"
      by (simp add: formatNumber_def MAX_DISPLAY_LENGTH_def r_def)
    with tok toExponential_not_token show False by simp
  qed
  then have f: "formatNumber (Finite s a) = Number_toString r"
    by (simp add: formatNumber_def MAX_DISPLAY_LENGTH_def r_def)
  from rounded12_cases [OF a, of s] show
    "same_number (parseFloat (formatNumber (Finite s a))) (rounded12 (Finite s a))"
  proof
    assume "\<exists>t. rounded12 (Finite s a) = Infinity t"
    then obtain t where "r = Infinity t" by (auto simp: r_def)
    with tok f not_tokens show ?thesis by (cases t) simp_all
  next
    assume "\<exists>t m. rounded12 (Finite s a) = Finite t m \<and> 0 \<le> m"
    then obtain t m where r: "r = Finite t m" and m: "0 \<le> m" by (auto simp: r_def)
    show ?thesis
    proof (cases "m = 0")
      case True
      with r f show ?thesis by (simp add: r_def [symmetric] parseFloat_zero)
    next
      case False
      with m have pos: "0 < m" by simp
      from tok have t1: "isNumberToken (Number_toString (Finite t m))"
        unfolding f r .
      from short have t2: "length (Number_toString (Finite t m)) \<le> 16"
        unfolding r by linarith
      from parseFloat_Number_toString [OF pos t1 t2]
      have "parseFloat (formatNumber (Finite s a)) = Finite t m"
        unfolding f r .
      moreover have "rounded12 (Finite s a) = Finite t m"
        using r by (simp only: r_def)
      ultimately show ?thesis by simp
    qed
  qed
qed

section \<open>The formatter\<close>

lemma a_tenth_plus_two_tenths:
  "rounded12 (fadd (parseFloat ''0.1'') (parseFloat ''0.2''))
     = Finite False (5404319552844595 / 18014398509481984)"
  "Number_toString (Finite False (5404319552844595 / 18014398509481984)) = ''0.3''"
  "isFinite (Num (fadd (parseFloat ''0.1'') (parseFloat ''0.2'')))"
  by code_simp+

lemma three_tenths_digits:
  "shortest (5404319552844595 / 18014398509481984) = (3, 0, 1)"
  "plain_render (digits_of 3) 0 1 = ''0.3''"
  by code_simp+

lemma a_ten_millionth:
  "isFinite (Num (parseFloat ''0.0000001''))"
  "rounded12 (parseFloat ''0.0000001'') = parseFloat ''0.0000001''"
  "Number_toString (parseFloat ''0.0000001'') = ''1e-7''"
  "plain_decimal (parseFloat ''0.0000001'') = ''0.0000001''"
  by code_simp+

lemma a_ten_millionth_digits:
  "parseFloat ''0.0000001'' = Finite False (944473296573929 / 9444732965739290427392)"
  "shortest (944473296573929 / 9444732965739290427392) = (1, - 6, 1)"
  "exponent_form (digits_of 1) (- 7) = ''1e-7''"
  by code_simp+

lemma four_thousand:
  "parseFloat ''4096.1'' = Finite False (2251854789266637 / 549755813888)"
  "rounded12 (Finite False (2251854789266637 / 549755813888))
     = Finite False (4503709578533275 / 1099511627776)"
  "Number_toString (Finite False (4503709578533275 / 1099511627776)) = ''4096.100000000001''"
  "toExponential (Finite False (4503709578533275 / 1099511627776)) 10 = ''4.0961000000e+3''"
  by code_simp+

lemma below_four_thousand:
  "parseFloat ''4096.099999999999'' = Finite False (4503709578533273 / 1099511627776)"
  "rounded12 (Finite False (4503709578533273 / 1099511627776))
     = Finite False (2251854789266637 / 549755813888)"
  "Number_toString (Finite False (2251854789266637 / 549755813888)) = ''4096.1''"
  "isNumberToken ''4096.1''"
  by code_simp+

lemma overflow_unformatted:
  "rounded12 (Finite False (2 ^ 1000)) = Infinity False"
  by code_simp

lemma zero_rounded: "rounded12 (Finite False 0) = Finite False 0"
  by code_simp

lemma formatNumber_short:
  "isFinite (Num n) \<Longrightarrow> rounded12 n = r \<Longrightarrow> length (Number_toString r) \<le> 16 \<Longrightarrow>
   formatNumber n = Number_toString r"
  by (simp add: formatNumber_def MAX_DISPLAY_LENGTH_def del: Number_toString.simps)

lemma formatNumber_long:
  "isFinite (Num n) \<Longrightarrow> rounded12 n = r \<Longrightarrow> 16 < length (Number_toString r) \<Longrightarrow>
   formatNumber n = toExponential r 10"
  by (simp add: formatNumber_def MAX_DISPLAY_LENGTH_def del: Number_toString.simps)

lemma formatNumber_overflow: "formatNumber (Finite False (2 ^ 1000)) = ''Infinity''"
proof -
  have "length (Number_toString (Infinity False)) \<le> 16" by simp
  from formatNumber_short [OF _ overflow_unformatted this] show ?thesis by simp
qed

lemma three_tenths:
  "fadd (parseFloat ''0.1'') (parseFloat ''0.2'')
     = Finite False (1351079888211149 / 4503599627370496)"
  "isNumberToken ''0.3''"
  "parseFloat ''0.3'' = Finite False (5404319552844595 / 18014398509481984)"
  "\<not> isNumberToken ''1e-7''"
  by code_simp+


text \<open>
  Claim C7, as stated, fails: the result 0.0000001 is rendered \<open>1e-7\<close>, where its plain
  decimal form, nine characters long, is \<open>0.0000001\<close>.
\<close>

theorem formatNumber_not_plain_decimal:
  "formatNumber (parseFloat ''0.0000001'') = ''1e-7'' \<and>
   specified_format (parseFloat ''0.0000001'') = ''0.0000001''"
  by (simp add: formatNumber_def specified_format_def a_ten_millionth MAX_DISPLAY_LENGTH_def)

text \<open>
  Claim C7, amended. For a NaN or an infinity the formatter returns \<open>Error\<close>. For a finite
  \<open>n\<close> whose rounded value \<open>r = Math.round(n * 1e12) / 1e12\<close>, computed in binary64, is
  finite, it returns \<open>String(r)\<close> when that has at most 16 characters and
  \<open>r.toExponential(10)\<close> otherwise. \<open>String(r)\<close> is \<open>0\<close> for a zero. For another \<open>r\<close> it is the
  sign and the shortest digits of \<open>r\<close>, at most 16 here, which read back as \<open>r\<close>: in plain
  decimal form when the decimal point lies from 5 places left of the first digit to 21
  places right of it (\<open>- 6 < e \<le> 21\<close>), and beyond that in exponent form, the first digit,
  the point and the other digits when there are any, and the exponent. \<open>r.toExponential(10)\<close>
  is the sign, one digit, the point, ten digits and the exponent, where the eleven digits
  are \<open>r\<close> rounded to that many. The sum of 0.1 and 0.2 is rendered \<open>0.3\<close>. Below, \<open>r\<close> is
  \<open>Finite s a\<close>, of sign \<open>s\<close> and magnitude \<open>a\<close>; nothing is said of an \<open>n\<close> whose product
  with \<open>1e12\<close> overflows.
\<close>

theorem formatNumber_forms:
  "(\<not> isFinite (Num n) \<longrightarrow> formatNumber n = ''Error'') \<and>
   (isFinite (Num n) \<and> rounded12 n = Finite s 0 \<longrightarrow> formatNumber n = ''0'') \<and>
   (isFinite (Num n) \<and> rounded12 n = Finite s a \<and> 0 < a \<and> shortest a = (d, e, k) \<and>
    length (Number_toString (Finite s a)) \<le> 16 \<longrightarrow>
      1 \<le> k \<and> k \<le> 16 \<and> length (digits_of d) = nat k \<and>
      fl False (of_int d * scale 10 (e - k)) = Finite False a \<and>
      formatNumber n = (if s then ''-'' else []) @
        (if - 6 < e \<and> e \<le> 21 then plain_render (digits_of d) e k
         else exponent_form (digits_of d) (e - 1))) \<and>
   (isFinite (Num n) \<and> rounded12 n = Finite s a \<and> 0 < a \<and>
    16 < length (Number_toString (Finite s a)) \<longrightarrow>
      (\<exists>m x. 10 ^ 10 \<le> m \<and> m < 10 ^ 11 \<and> length (digits_of m) = 11 \<and>
         \<bar>a - of_int m * scale 10 (x - 10)\<bar> \<le> scale 10 (x - 10) / 2 \<and>
         formatNumber n = (if s then ''-'' else []) @ exponent_form (digits_of m) x)) \<and>
   formatNumber (fadd (parseFloat ''0.1'') (parseFloat ''0.2'')) = ''0.3''"
proof (intro conjI impI)
  assume "\<not> isFinite (Num n)"
  then show "formatNumber n = ''Error''" by (simp add: formatNumber_def)
next
  assume "isFinite (Num n) \<and> rounded12 n = Finite s 0"
  then show "formatNumber n = ''0''" by (simp add: formatNumber_def MAX_DISPLAY_LENGTH_def)
next
  assume h: "isFinite (Num n) \<and> rounded12 n = Finite s a \<and> 0 < a \<and> shortest a = (d, e, k) \<and>
    length (Number_toString (Finite s a)) \<le> 16"
  then have f: "formatNumber n = Number_toString (Finite s a)"
    using formatNumber_short [of n "Finite s a"] by blast
  from h Number_toString_forms [of a d e k s]
  have n: "1 \<le> k \<and> k \<le> 16 \<and> length (digits_of d) = nat k \<and>
         fl False (of_int d * scale 10 (e - k)) = Finite False a \<and>
         Number_toString (Finite s a) = (if s then ''-'' else []) @
           (if - 6 < e \<and> e \<le> 21 then plain_render (digits_of d) e k
            else exponent_form (digits_of d) (e - 1))" by blast
  from n show "1 \<le> k" by blast
  from n show "k \<le> 16" by blast
  from n show "length (digits_of d) = nat k" by blast
  from n show "fl False (of_int d * scale 10 (e - k)) = Finite False a" by blast
  from n show "formatNumber n = (if s then ''-'' else []) @
        (if - 6 < e \<and> e \<le> 21 then plain_render (digits_of d) e k
         else exponent_form (digits_of d) (e - 1))" unfolding f by blast
next
  assume h: "isFinite (Num n) \<and> rounded12 n = Finite s a \<and> 0 < a \<and>
    16 < length (Number_toString (Finite s a))"
  then have f: "formatNumber n = toExponential (Finite s a) 10"
    using formatNumber_long [of n "Finite s a"] by blast
  from h have "0 < a" by blast
  from toExponential_ten [OF this, of s]
  show "\<exists>m x. 10 ^ 10 \<le> m \<and> m < 10 ^ 11 \<and> length (digits_of m) = 11 \<and>
         \<bar>a - of_int m * scale 10 (x - 10)\<bar> \<le> scale 10 (x - 10) / 2 \<and>
         formatNumber n = (if s then ''-'' else []) @ exponent_form (digits_of m) x"
    unfolding f .
next
  show "formatNumber (fadd (parseFloat ''0.1'') (parseFloat ''0.2'')) = ''0.3''"
    by (simp add: formatNumber_def MAX_DISPLAY_LENGTH_def a_tenth_plus_two_tenths
        del: Number_toString.simps)
qed

theorem formatNumber_forms_witness:
  "\<not> isFinite (Num (fdiv (parseFloat ''1'') (parseFloat ''0''))) \<and>
   formatNumber (fdiv (parseFloat ''1'') (parseFloat ''0'')) = ''Error'' \<and>
   isFinite (Num (Finite True 0)) \<and> rounded12 (Finite True 0) = Finite True 0 \<and>
   formatNumber (Finite True 0) = ''0'' \<and>
   isFinite (Num (fadd (parseFloat ''0.1'') (parseFloat ''0.2''))) \<and>
   rounded12 (fadd (parseFloat ''0.1'') (parseFloat ''0.2''))
     = Finite False (5404319552844595 / 18014398509481984) \<and>
   (0::rat) < 5404319552844595 / 18014398509481984 \<and>
   shortest (5404319552844595 / 18014398509481984) = (3, 0, 1) \<and>
   length (Number_toString (Finite False (5404319552844595 / 18014398509481984))) \<le> 16 \<and>
   formatNumber (fadd (parseFloat ''0.1'') (parseFloat ''0.2'')) = ''0.3'' \<and>
   isFinite (Num (parseFloat ''0.0000001'')) \<and>
   rounded12 (parseFloat ''0.0000001'')
     = Finite False (944473296573929 / 9444732965739290427392) \<and>
   (0::rat) < 944473296573929 / 9444732965739290427392 \<and>
   shortest (944473296573929 / 9444732965739290427392) = (1, - 6, 1) \<and>
   length (Number_toString (Finite False (944473296573929 / 9444732965739290427392))) \<le> 16 \<and>
   formatNumber (parseFloat ''0.0000001'') = ''1e-7'' \<and>
   isFinite (Num (parseFloat ''4096.1'')) \<and>
   rounded12 (parseFloat ''4096.1'') = Finite False (4503709578533275 / 1099511627776) \<and>
   (0::rat) < 4503709578533275 / 1099511627776 \<and>
   16 < length (Number_toString (Finite False (4503709578533275 / 1099511627776))) \<and>
   formatNumber (parseFloat ''4096.1'') = ''4.0961000000e+3'' \<and>
   (\<exists>m x. 10 ^ 10 \<le> m \<and> m < 10 ^ 11 \<and> length (digits_of m) = 11 \<and>
      \<bar>4503709578533275 / 1099511627776 - of_int m * scale 10 (x - 10)\<bar>
        \<le> scale 10 (x - 10) / 2 \<and>
      ''4.0961000000e+3'' = exponent_form (digits_of m) x)"
proof -
  define q3 :: rat where "q3 = 5404319552844595 / 18014398509481984"
  define q7 :: rat where "q7 = 944473296573929 / 9444732965739290427392"
  define q1 :: rat where "q1 = 4503709578533275 / 1099511627776"
  define sum where "sum = fadd (parseFloat ''0.1'') (parseFloat ''0.2'')"
  define inf where "inf = fdiv (parseFloat ''1'') (parseFloat ''0'')"
  have i1: "\<not> isFinite (Num inf)" unfolding inf_def by code_simp
  from formatNumber_forms [where n = inf] i1
  have i2: "formatNumber inf = ''Error''" by blast
  have z1: "isFinite (Num (Finite True 0))" by simp
  have z2: "rounded12 (Finite True 0) = Finite True 0" by code_simp
  from formatNumber_forms [where n = "Finite True 0" and s = True] z1 z2
  have z3: "formatNumber (Finite True 0) = ''0''" by blast
  have s1: "isFinite (Num sum)" unfolding sum_def by (rule a_tenth_plus_two_tenths(3))
  have s2: "rounded12 sum = Finite False q3"
    unfolding sum_def q3_def by (rule a_tenth_plus_two_tenths(1))
  have s3: "0 < q3" by (simp add: q3_def)
  have s4: "shortest q3 = (3, 0, 1)" unfolding q3_def by (rule three_tenths_digits(1))
  have s5: "length (Number_toString (Finite False q3)) \<le> 16"
    unfolding q3_def by (simp only: a_tenth_plus_two_tenths(2)) simp
  from formatNumber_forms [where n = sum and s = False and a = q3 and d = 3 and e = 0 and k = 1]
    s1 s2 s3 s4 s5
  have "formatNumber sum = (if False then ''-'' else []) @
        (if - 6 < (0::int) \<and> (0::int) \<le> 21 then plain_render (digits_of 3) 0 1
         else exponent_form (digits_of 3) (0 - 1))" by blast
  then have s6: "formatNumber sum = ''0.3''" by (simp add: three_tenths_digits(2))
  have t1: "isFinite (Num (parseFloat ''0.0000001''))" by (rule a_ten_millionth(1))
  have t2: "rounded12 (parseFloat ''0.0000001'') = Finite False q7"
    unfolding q7_def using a_ten_millionth(2) a_ten_millionth_digits(1) by (simp only:)
  have t3: "0 < q7" by (simp add: q7_def)
  have t4: "shortest q7 = (1, - 6, 1)" unfolding q7_def by (rule a_ten_millionth_digits(2))
  have "Number_toString (Finite False q7) = ''1e-7''"
    unfolding q7_def using a_ten_millionth(3) a_ten_millionth_digits(1) by (simp only:)
  then have t5: "length (Number_toString (Finite False q7)) \<le> 16" by (simp only:) simp
  from formatNumber_forms [where n = "parseFloat ''0.0000001''" and s = False and a = q7
      and d = 1 and e = "- 6" and k = 1] t1 t2 t3 t4 t5
  have "formatNumber (parseFloat ''0.0000001'') = (if False then ''-'' else []) @
        (if - 6 < (- 6::int) \<and> (- 6::int) \<le> 21 then plain_render (digits_of 1) (- 6) 1
         else exponent_form (digits_of 1) (- 6 - 1))" by blast
  then have t6: "formatNumber (parseFloat ''0.0000001'') = ''1e-7''"
    by (simp add: a_ten_millionth_digits(3))
  have f1: "isFinite (Num (parseFloat ''4096.1''))" by (simp only: four_thousand(1)) simp
  have f2: "rounded12 (parseFloat ''4096.1'') = Finite False q1"
    unfolding q1_def by (simp only: four_thousand(1,2))
  have f3: "0 < q1" by (simp add: q1_def)
  have f4: "16 < length (Number_toString (Finite False q1))"
    unfolding q1_def by (simp only: four_thousand(3)) simp
  have f5: "formatNumber (parseFloat ''4096.1'') = ''4.0961000000e+3''"
    using formatNumber_long [OF f1 f2 f4] unfolding q1_def by (simp only: four_thousand(4))
  from formatNumber_forms [where n = "parseFloat ''4096.1''" and s = False and a = q1]
    f1 f2 f3 f4
  have "\<exists>m x. 10 ^ 10 \<le> m \<and> m < 10 ^ 11 \<and> length (digits_of m) = 11 \<and>
         \<bar>q1 - of_int m * scale 10 (x - 10)\<bar> \<le> scale 10 (x - 10) / 2 \<and>
         formatNumber (parseFloat ''4096.1'')
           = (if False then ''-'' else []) @ exponent_form (digits_of m) x" by blast
  then have f6: "\<exists>m x. 10 ^ 10 \<le> m \<and> m < 10 ^ 11 \<and> length (digits_of m) = 11 \<and>
         \<bar>q1 - of_int m * scale 10 (x - 10)\<bar> \<le> scale 10 (x - 10) / 2 \<and>
         ''4.0961000000e+3'' = exponent_form (digits_of m) x"
    unfolding f5 by simp
  from i1 i2 z1 z2 z3 s1 s2 s3 s4 s5 s6 t1 t2 t3 t4 t5 t6 f1 f2 f3 f4 f5 f6
  show ?thesis unfolding q3_def q7_def q1_def sum_def inf_def by (intro conjI)
qed

section \<open>Formatting and reading back\<close>

text \<open>
  Claim C8, as stated, fails. The result 0.0000001 is rendered \<open>1e-7\<close>, which is no Number
  token. The result 4096.099999999999 is rendered \<open>4096.1\<close>, a Number token, and 4096.1 read
  back from it is rendered \<open>4.0961000000e+3\<close>: formatting again gives another string.
\<close>

theorem formatNumber_round_trip_fails:
  "\<not> isNumberToken (formatNumber (parseFloat ''0.0000001'')) \<and>
   formatNumber (parseFloat ''4096.099999999999'') = ''4096.1'' \<and>
   isNumberToken ''4096.1'' \<and>
   formatNumber (parseFloat ''4096.1'') = ''4.0961000000e+3''"
proof -
  have "formatNumber (parseFloat ''0.0000001'') = ''1e-7''"
    by (simp add: formatNumber_def a_ten_millionth MAX_DISPLAY_LENGTH_def)
  then have a: "\<not> isNumberToken (formatNumber (parseFloat ''0.0000001''))"
    by (simp only: three_tenths(4)) simp
  have "length (Number_toString (Finite False (2251854789266637 / 549755813888))) \<le> 16"
    by (simp only: below_four_thousand(3)) simp
  from formatNumber_short [OF _ below_four_thousand(2) this]
  have b: "formatNumber (parseFloat ''4096.099999999999'') = ''4096.1''"
    by (simp only: below_four_thousand(1,3)) simp
  have "16 < length (Number_toString (Finite False (4503709578533275 / 1099511627776)))"
    by (simp only: four_thousand(3)) simp
  from formatNumber_long [OF _ four_thousand(2) this]
  have c: "formatNumber (parseFloat ''4096.1'') = ''4.0961000000e+3''"
    by (simp only: four_thousand(1,4)) simp
  from a b c below_four_thousand(4) show ?thesis by (intro conjI)
qed

text \<open>
  Claim C8, amended. For a finite \<open>n\<close> whose rendering is a Number token, reading the
  rendering back with \<open>parseFloat\<close> gives the rounded value \<open>r = Math.round(n * 1e12) / 1e12\<close>,
  the two zeros taken as the same number. The rendering is a Number token when \<open>r\<close> is a
  zero, and for another finite \<open>r\<close> exactly when \<open>String(r)\<close> has at most 16 characters and
  is in plain decimal form (\<open>- 6 < e \<le> 21\<close>). Below, \<open>n\<close> is \<open>Finite s a\<close>, of magnitude
  \<open>0 \<le> a\<close>, and \<open>r\<close> is \<open>Finite t b\<close>.
\<close>

theorem formatNumber_reparses:
  "(0 \<le> a \<and> isNumberToken (formatNumber (Finite s a)) \<longrightarrow>
      same_number (parseFloat (formatNumber (Finite s a))) (rounded12 (Finite s a))) \<and>
   (rounded12 (Finite s a) = Finite t 0 \<longrightarrow> isNumberToken (formatNumber (Finite s a))) \<and>
   (rounded12 (Finite s a) = Finite t b \<and> 0 < b \<and> shortest b = (d, e, k) \<longrightarrow>
      (isNumberToken (formatNumber (Finite s a)) \<longleftrightarrow>
         length (Number_toString (Finite t b)) \<le> 16 \<and> - 6 < e \<and> e \<le> 21))"
proof (intro conjI impI)
  assume "0 \<le> a \<and> isNumberToken (formatNumber (Finite s a))"
  with formatNumber_round_trip [of a s]
  show "same_number (parseFloat (formatNumber (Finite s a))) (rounded12 (Finite s a))"
    by blast
next
  assume "rounded12 (Finite s a) = Finite t 0"
  then have "formatNumber (Finite s a) = ''0''"
    by (simp add: formatNumber_def MAX_DISPLAY_LENGTH_def)
  moreover have "isNumberToken ''0''" by code_simp
  ultimately show "isNumberToken (formatNumber (Finite s a))" by (simp only:)
next
  assume h: "rounded12 (Finite s a) = Finite t b \<and> 0 < b \<and> shortest b = (d, e, k)"
  then have r: "rounded12 (Finite s a) = Finite t b" and b: "0 < b"
    and sh: "shortest b = (d, e, k)" by blast+
  have fin: "isFinite (Num (Finite s a))" by simp
  show "isNumberToken (formatNumber (Finite s a)) \<longleftrightarrow>
         length (Number_toString (Finite t b)) \<le> 16 \<and> - 6 < e \<and> e \<le> 21"
  proof (cases "length (Number_toString (Finite t b)) \<le> 16")
    case True
    from formatNumber_short [OF fin r True] Number_toString_token [OF b sh True] True
    show ?thesis by (simp only:) blast
  next
    case False
    then have "16 < length (Number_toString (Finite t b))" by linarith
    from formatNumber_long [OF fin r this] toExponential_not_token [of "Finite t b" 10] False
    show ?thesis by (simp only:) blast
  qed
qed

theorem formatNumber_reparses_witness:
  "(0::rat) \<le> 1351079888211149 / 4503599627370496 \<and>
   formatNumber (Finite False (1351079888211149 / 4503599627370496)) = ''0.3'' \<and>
   isNumberToken (formatNumber (Finite False (1351079888211149 / 4503599627370496))) \<and>
   rounded12 (Finite False (1351079888211149 / 4503599627370496))
     = Finite False (5404319552844595 / 18014398509481984) \<and>
   parseFloat ''0.3'' = Finite False (5404319552844595 / 18014398509481984) \<and>
   same_number (parseFloat (formatNumber (Finite False (1351079888211149 / 4503599627370496))))
     (rounded12 (Finite False (1351079888211149 / 4503599627370496))) \<and>
   (0::rat) < 5404319552844595 / 18014398509481984 \<and>
   shortest (5404319552844595 / 18014398509481984) = (3, 0, 1) \<and>
   length (Number_toString (Finite False (5404319552844595 / 18014398509481984))) \<le> 16 \<and>
   rounded12 (Finite True 0) = Finite True 0 \<and>
   isNumberToken (formatNumber (Finite True 0))"
proof -
  define x3 :: rat where "x3 = 1351079888211149 / 4503599627370496"
  define q3 :: rat where "q3 = 5404319552844595 / 18014398509481984"
  have a1: "0 \<le> x3" by (simp add: x3_def)
  have a2: "rounded12 (Finite False x3) = Finite False q3"
    unfolding x3_def q3_def using a_tenth_plus_two_tenths(1) by (simp only: three_tenths(1))
  have a3: "0 < q3" by (simp add: q3_def)
  have a4: "shortest q3 = (3, 0, 1)" unfolding q3_def by (rule three_tenths_digits(1))
  have a5: "length (Number_toString (Finite False q3)) \<le> 16"
    unfolding q3_def by (simp only: a_tenth_plus_two_tenths(2)) simp
  have a6: "formatNumber (Finite False x3) = ''0.3''"
    using formatNumber_short [OF _ a2 a5] unfolding q3_def
    by (simp only: a_tenth_plus_two_tenths(2)) simp
  note th = formatNumber_reparses [where a = x3 and s = False and t = False and b = q3
      and d = 3 and e = 0 and k = 1]
  have "- 6 < (0::int) \<and> (0::int) \<le> 21" by simp
  with th a2 a3 a4 a5 have a7: "isNumberToken (formatNumber (Finite False x3))" by blast
  with th a1
  have a8: "same_number (parseFloat (formatNumber (Finite False x3)))
     (rounded12 (Finite False x3))" by blast
  have z1: "rounded12 (Finite True 0) = Finite True 0" by code_simp
  with formatNumber_reparses [where a = 0 and s = True and t = True]
  have z2: "isNumberToken (formatNumber (Finite True 0))" by blast
  from a1 a6 a7 a2 three_tenths(3) a8 a3 a4 a5 z1 z2
  show ?thesis unfolding x3_def q3_def by (intro conjI)
qed

section \<open>A digit after \<open>Error\<close>\<close>

text \<open>
  Claim C9 against the code. The keys \<open>2\<close>, \<open>+\<close>, \<open>0\<close> lead to the first state below; \<open>1/x\<close>
  then shows \<open>Error\<close> and leaves \<open>Infinity\<close> as the current token and \<open>2 +\<close> as the pending
  tokens; the digit \<open>5\<close> is appended to that token: the display shows \<open>Infinity5\<close> and the
  pending tokens stay. In \<open>script.js\<close> the digit is appended to the marker itself.
\<close>

theorem digit_after_Error_appends:
  "inputDigit ''0'' (handleOperator ''add'' (inputDigit ''2'' initial_state))
     = initial_state\<lparr>exprTokens := [''2'', ''+''], currentToken := ''0''\<rparr> \<and>
   applyUnary M Reciprocal (initial_state\<lparr>exprTokens := [''2'', ''+''], currentToken := ''0''\<rparr>)
     = initial_state\<lparr>displayValue := ''Error'', exprTokens := [''2'', ''+''],
         currentToken := ''Infinity''\<rparr> \<and>
   inputDigit ''5'' (initial_state\<lparr>displayValue := ''Error'', exprTokens := [''2'', ''+''],
         currentToken := ''Infinity''\<rparr>)
     = initial_state\<lparr>displayValue := ''Infinity5'', exprTokens := [''2'', ''+''],
         currentToken := ''Infinity5''\<rparr> \<and>
   basic_applyUnary M Reciprocal initial_basic_state
     = initial_basic_state\<lparr>basic_displayValue := ''Error''\<rparr> \<and>
   basic_inputDigit ''5'' (initial_basic_state\<lparr>basic_displayValue := ''Error''\<rparr>)
     = initial_basic_state\<lparr>basic_displayValue := ''Error5''\<rparr>"
proof (intro conjI)
  show "inputDigit ''0'' (handleOperator ''add'' (inputDigit ''2'' initial_state))
     = initial_state\<lparr>exprTokens := [''2'', ''+''], currentToken := ''0''\<rparr>"
    by (simp add: initial_state_def inputDigit_def handleOperator_def push_current_def)
  show "applyUnary M Reciprocal (initial_state\<lparr>exprTokens := [''2'', ''+''], currentToken := ''0''\<rparr>)
     = initial_state\<lparr>displayValue := ''Error'', exprTokens := [''2'', ''+''],
         currentToken := ''Infinity''\<rparr>"
    by (simp add: initial_state_def applyUnary_def parseFloat_zero formatNumber_def
        resetCalculator_def)
  show "inputDigit ''5'' (initial_state\<lparr>displayValue := ''Error'', exprTokens := [''2'', ''+''],
         currentToken := ''Infinity''\<rparr>)
     = initial_state\<lparr>displayValue := ''Infinity5'', exprTokens := [''2'', ''+''],
         currentToken := ''Infinity5''\<rparr>"
    by (simp add: initial_state_def inputDigit_def)
  show "basic_applyUnary M Reciprocal initial_basic_state
     = initial_basic_state\<lparr>basic_displayValue := ''Error''\<rparr>"
    by (simp add: initial_basic_state_def basic_applyUnary_def parseFloat_zero formatNumber_def
        basic_resetCalculator_def)
  show "basic_inputDigit ''5'' (initial_basic_state\<lparr>basic_displayValue := ''Error''\<rparr>)
     = initial_basic_state\<lparr>basic_displayValue := ''Error5''\<rparr>"
    by (simp add: initial_basic_state_def basic_inputDigit_def)
qed

section \<open>The memory operations\<close>

text \<open>
  Claim C10. \<open>memoryClear\<close>, \<open>memoryPlus\<close> and \<open>memoryMinus\<close> change nothing but the memory
  register: the display value, the current token, the expression tokens, the first
  operand, the operator, the waiting flag and the angle mode are as before. When the
  display value does not parse as a number, \<open>memoryPlus\<close> and \<open>memoryMinus\<close> leave the
  state as it is, the memory register too.
\<close>

theorem memory_operations_frame:
  "(\<exists>m. memoryClear s = s\<lparr>memory := m\<rparr>) \<and>
   (\<exists>m. memoryPlus s = s\<lparr>memory := m\<rparr>) \<and>
   (\<exists>m. memoryMinus s = s\<lparr>memory := m\<rparr>) \<and>
   (\<forall>f \<in> {memoryClear, memoryPlus, memoryMinus}.
      displayValue (f s) = displayValue s \<and> currentToken (f s) = currentToken s \<and>
      exprTokens (f s) = exprTokens s \<and> firstOperand (f s) = firstOperand s \<and>
      operator (f s) = operator s \<and>
      waitingForSecondOperand (f s) = waitingForSecondOperand s \<and> degMode (f s) = degMode s) \<and>
   (isNaN (parseFloat (displayValue s)) \<longrightarrow> memoryPlus s = s \<and> memoryMinus s = s)"
proof (intro conjI impI ballI)
  show "\<exists>m. memoryClear s = s\<lparr>memory := m\<rparr>" by (auto simp: memoryClear_def)
  show "\<exists>m. memoryPlus s = s\<lparr>memory := m\<rparr>"
    by (cases "isNaN (parseFloat (displayValue s))")
       (auto simp: memoryPlus_def intro: exI [of _ "memory s"])
  show "\<exists>m. memoryMinus s = s\<lparr>memory := m\<rparr>"
    by (cases "isNaN (parseFloat (displayValue s))")
       (auto simp: memoryMinus_def intro: exI [of _ "memory s"])
  show "memoryPlus s = s" "memoryMinus s = s" if "isNaN (parseFloat (displayValue s))"
    using that by (simp_all add: memoryPlus_def memoryMinus_def)
qed (auto simp: memoryClear_def memoryPlus_def memoryMinus_def Let_def split: if_splits)

theorem memory_operations_frame_witness:
  "isNaN (parseFloat (displayValue
      (initial_state\<lparr>displayValue := ''Error'', memory := Finite False 7\<rparr>))) \<and>
   memoryPlus (initial_state\<lparr>displayValue := ''Error'', memory := Finite False 7\<rparr>)
     = initial_state\<lparr>displayValue := ''Error'', memory := Finite False 7\<rparr> \<and>
   memoryClear \<in> {memoryClear, memoryPlus, memoryMinus} \<and>
   displayValue (memoryClear (initial_state\<lparr>displayValue := ''12''\<rparr>)) = ''12''"
proof -
  have h: "isNaN (parseFloat (displayValue
      (initial_state\<lparr>displayValue := ''Error'', memory := Finite False 7\<rparr>)))"
    by code_simp
  from memory_operations_frame [of "initial_state\<lparr>displayValue := ''Error'', memory := Finite False 7\<rparr>"]
    memory_operations_frame [of "initial_state\<lparr>displayValue := ''12''\<rparr>"] h
  show ?thesis by simp
qed

end
